theory Spec2Isabelle
  imports Main "HOL-Library.AList" "HOL-Library.Char_ord" "HOL-Library.List_Lexorder"
begin

section \<open>Data model of the tokenizer\<close>

text \<open>
  The repository holds the tokenizer and the parser twice: \<^verbatim>\<open>parser.go\<close> with exported names
  and, nextToken to \<^verbatim>\<open>LockFile\<close> and \<^verbatim>\<open>ParseLockFileData\<close>, a copy whose identifiers start with an
  underscore. The two copies are the same code; one model serves both. Go strings are byte
  sequences, as \<^typ>\<open>string\<close> is here; Go's \<^verbatim>\<open>int\<close> is modelled by \<^typ>\<open>int\<close> (no counter of this
  program can reach 64 bits; the one saturating conversion, \<^verbatim>\<open>strconv.Atoi\<close>, is written out).
\<close>

datatype ValueType = TokenValueVoid | TokenValueInt | TokenValueString | TokenValueBool

text \<open>\<^verbatim>\<open>TokenType\<close> is an \<^verbatim>\<open>int\<close> whose constants start at 1; \<open>TokenNone\<close> is its zero value.\<close>

datatype TokenType =
    TokenNone | TokenBoolean | TokenString | TokenIdentifier | TokenEOF | TokenColon
  | TokenNewLine | TokenComment | TokenIndent | TokenInvalid | TokenNumber | TokenComma

record TokenValue =
  vInt :: int
  vString :: string
  vBool :: bool
  valid :: bool
  vType :: ValueType

record Token =
  Line :: int
  Col :: int
  Type :: TokenType
  Value :: TokenValue

record Tokenizer =
  lastNewLine :: bool
  line :: int
  col :: int
  tokens :: "Token list"

text \<open>The zero values Go gives to a fresh struct.\<close>

definition zeroValue :: TokenValue where
  "zeroValue = \<lparr>vInt = 0, vString = [], vBool = False, valid = False, vType = TokenValueVoid\<rparr>"

definition zeroToken :: Token where
  "zeroToken = \<lparr>Line = 0, Col = 0, Type = TokenNone, Value = zeroValue\<rparr>"

definition newTokenizer :: Tokenizer where
  "newTokenizer = \<lparr>lastNewLine = False, line = 0, col = 0, tokens = []\<rparr>"

subsection \<open>Panics and errors\<close>

text \<open>
  A Go panic carries a value; the ones this program raises are run-time errors (an index or
  a slice bound out of range, a failed type assertion), strings and the integer 1.
  Error values are the ones the program returns.
\<close>

datatype runtime_error = IndexOutOfRange | SliceBoundsOutOfRange | InterfaceConversion

datatype panic_value = PanicRuntime runtime_error | PanicString string | PanicInt int

datatype error =
    ErrorsNew string
  | RuntimeError runtime_error
  | ParseErr string
  | UnmarshalTypeError string
  | SyntaxError string
  | Wrap error string

text \<open>The \<^verbatim>\<open>interface{}\<close> argument of \<^verbatim>\<open>buildToken\<close>.\<close>

datatype arg = ArgNil | ArgString string | ArgBool bool | ArgInt int

definition isString :: "Token \<Rightarrow> bool" where
  "isString t = (vType (Value t) = TokenValueString)"

definition IsEmpty :: "TokenValue \<Rightarrow> bool" where
  "IsEmpty v = (\<not> valid v)"

subsection \<open>Library functions the tokenizer calls\<close>

definition is_digit :: "char \<Rightarrow> bool" where
  "is_digit c = (c \<in> set ''0123456789'')"

definition digit_val :: "char \<Rightarrow> int" where
  "digit_val c = int (of_char c) - 48"

text \<open>The value of a run of decimal digits.\<close>

definition decimal :: "string \<Rightarrow> int" where
  "decimal ds = foldl (\<lambda>n c. 10 * n + digit_val c) 0 ds"

text \<open>
  \<^verbatim>\<open>strconv.Atoi\<close> on a non-empty run of digits, its error dropped as the callers do:
  a value beyond the 64-bit range comes back as the largest \<^verbatim>\<open>int\<close>.
\<close>

definition Atoi :: "string \<Rightarrow> int" where
  "Atoi ds = min (decimal ds) (2 ^ 63 - 1)"

text \<open>\<^verbatim>\<open>strings.HasPrefix\<close> and \<^verbatim>\<open>strings.HasSuffix\<close>, as the library writes them.\<close>

definition HasPrefix :: "string \<Rightarrow> string \<Rightarrow> bool" where
  "HasPrefix s p = (length p \<le> length s \<and> take (length p) s = p)"

definition HasSuffix :: "string \<Rightarrow> string \<Rightarrow> bool" where
  "HasSuffix s p = (length p \<le> length s \<and> drop (length s - length p) s = p)"

text \<open>\<^verbatim>\<open>strings.Index(s, "\n")\<close>: the position of the first line feed, \<open>None\<close> for \<open>-1\<close>.\<close>

definition IndexNL :: "string \<Rightarrow> nat option" where
  "IndexNL s = (if CHR ''\<newline>'' \<in> set s
     then Some (length (takeWhile (\<lambda>c. c \<noteq> CHR ''\<newline>'') s)) else None)"

text \<open>\<^verbatim>\<open>_numberPattern\<close> \<^verbatim>\<open>^\d+\<close>: the longest leading run of ASCII digits.\<close>

definition numberPattern_FindString :: "string \<Rightarrow> string" where
  "numberPattern_FindString s = takeWhile is_digit s"

text \<open>\<^verbatim>\<open>_strPattern\<close> \<^verbatim>\<open>^[a-zA-Z\/.-]\<close>: the first byte is a letter, a slash, a dot or a dash.\<close>

definition strPattern_MatchString :: "string \<Rightarrow> bool" where
  "strPattern_MatchString s = (case s of [] \<Rightarrow> False
     | c # _ \<Rightarrow> c \<in> set ''abcdefghijklmnopqrstuvwxyzABCDEFGHIJKLMNOPQRSTUVWXYZ/.-'')"

subsection \<open>Decoding a quoted string: \<^verbatim>\<open>json.Unmarshal\<close> into a Go string\<close>

text \<open>
  The bytes of a Go string that are not well-formed UTF-8 come out of the JSON library as
  U+FFFD (\<^verbatim>\<open>EF BF BD\<close>), one for each offending byte. \<open>utf8_coerce\<close> is that replacement,
  following the byte ranges of \<^verbatim>\<open>utf8.DecodeRune\<close>.
\<close>

definition byte :: "char \<Rightarrow> nat" where
  "byte c = of_char c"

definition cont :: "char \<Rightarrow> bool" where
  "cont c = (0x80 \<le> byte c \<and> byte c \<le> 0xBF)"

definition replacement :: string where
  "replacement = [CHR 0xEF, CHR 0xBF, CHR 0xBD]"

definition seq2 :: "char \<Rightarrow> char \<Rightarrow> bool" where
  "seq2 a b = (0xC2 \<le> byte a \<and> byte a \<le> 0xDF \<and> cont b)"

definition seq3 :: "char \<Rightarrow> char \<Rightarrow> char \<Rightarrow> bool" where
  "seq3 a b c = (cont c \<and>
     (byte a = 0xE0 \<and> 0xA0 \<le> byte b \<and> byte b \<le> 0xBF
      \<or> 0xE1 \<le> byte a \<and> byte a \<le> 0xEF \<and> byte a \<noteq> 0xED \<and> cont b
      \<or> byte a = 0xED \<and> 0x80 \<le> byte b \<and> byte b \<le> 0x9F))"

definition seq4 :: "char \<Rightarrow> char \<Rightarrow> char \<Rightarrow> char \<Rightarrow> bool" where
  "seq4 a b c d = (cont c \<and> cont d \<and>
     (byte a = 0xF0 \<and> 0x90 \<le> byte b \<and> byte b \<le> 0xBF
      \<or> 0xF1 \<le> byte a \<and> byte a \<le> 0xF3 \<and> cont b
      \<or> byte a = 0xF4 \<and> 0x80 \<le> byte b \<and> byte b \<le> 0x8F))"

fun utf8_coerce :: "string \<Rightarrow> string" where
  "utf8_coerce [] = []"
| "utf8_coerce [a] = (if byte a < 0x80 then [a] else replacement)"
| "utf8_coerce [a, b] =
     (if byte a < 0x80 then a # utf8_coerce [b]
      else if seq2 a b then [a, b]
      else replacement @ utf8_coerce [b])"
| "utf8_coerce [a, b, c] =
     (if byte a < 0x80 then a # utf8_coerce [b, c]
      else if seq2 a b then a # b # utf8_coerce [c]
      else if seq3 a b c then [a, b, c]
      else replacement @ utf8_coerce [b, c])"
| "utf8_coerce (a # b # c # d # s) =
     (if byte a < 0x80 then a # utf8_coerce (b # c # d # s)
      else if seq2 a b then a # b # utf8_coerce (c # d # s)
      else if seq3 a b c then a # b # c # utf8_coerce (d # s)
      else if seq4 a b c d then a # b # c # d # utf8_coerce s
      else replacement @ utf8_coerce (b # c # d # s))"

text \<open>\<^verbatim>\<open>utf8.EncodeRune\<close> for the code points a \<^verbatim>\<open>\u\<close> escape can give.\<close>

definition EncodeRune :: "nat \<Rightarrow> string" where
  "EncodeRune r =
     (if r < 0x80 then [char_of r]
      else if r < 0x800 then [char_of (0xC0 + r div 64), char_of (0x80 + r mod 64)]
      else if r < 0x10000 then
        [char_of (0xE0 + r div 4096), char_of (0x80 + (r div 64) mod 64), char_of (0x80 + r mod 64)]
      else
        [char_of (0xF0 + r div 262144), char_of (0x80 + (r div 4096) mod 64),
         char_of (0x80 + (r div 64) mod 64), char_of (0x80 + r mod 64)])"

definition hex_val :: "char \<Rightarrow> nat option" where
  "hex_val c =
     (if is_digit c then Some (byte c - 48)
      else if c \<in> set ''abcdef'' then Some (byte c - 87)
      else if c \<in> set ''ABCDEF'' then Some (byte c - 55)
      else None)"

definition hex4 :: "char \<Rightarrow> char \<Rightarrow> char \<Rightarrow> char \<Rightarrow> nat option" where
  "hex4 a b c d =
     (case (hex_val a, hex_val b, hex_val c, hex_val d) of
        (Some w, Some x, Some y, Some z) \<Rightarrow> Some (4096 * w + 256 * x + 16 * y + z)
      | _ \<Rightarrow> None)"

definition json_space :: "char \<Rightarrow> bool" where
  "json_space c = (c = CHR '' '' \<or> c = CHR 0x09 \<or> c = CHR 0x0D \<or> c = CHR ''\<newline>'')"

text \<open>
  The body of a JSON string literal, after its opening quote. The result is \<open>None\<close> where the
  library reports a syntax error: a control byte, an unknown escape, a missing closing quote,
  text after the closing quote. A \<^verbatim>\<open>\u\<close> escape that is half of a surrogate pair without its
  other half decodes to U+FFFD.
\<close>

fun unquote_body :: "string \<Rightarrow> string option" where
  "unquote_body [] = None"
| "unquote_body (c # s) =
     (if c = CHR 0x22 then (if list_all json_space s then Some [] else None)
      else if c = CHR 0x5C then
        (case s of
           [] \<Rightarrow> None
         | e # s1 \<Rightarrow>
             if e = CHR ''u'' then
               (case s1 of
                  h1 # h2 # h3 # h4 # s2 \<Rightarrow>
                    (case hex4 h1 h2 h3 h4 of
                       None \<Rightarrow> None
                     | Some r \<Rightarrow>
                         if 0xD800 \<le> r \<and> r < 0xE000 then
                           (case s2 of
                              b # u # l1 # l2 # l3 # l4 # s3 \<Rightarrow>
                                (case (if b = CHR 0x5C \<and> u = CHR ''u'' then hex4 l1 l2 l3 l4 else None) of
                                   Some r2 \<Rightarrow>
                                     if r < 0xDC00 \<and> 0xDC00 \<le> r2 \<and> r2 < 0xE000 then
                                       map_option
                                         (\<lambda>t. EncodeRune (0x10000 + (r - 0xD800) * 1024 + (r2 - 0xDC00)) @ t)
                                         (unquote_body s3)
                                     else map_option (\<lambda>t. replacement @ t) (unquote_body s2)
                                 | None \<Rightarrow> map_option (\<lambda>t. replacement @ t) (unquote_body s2))
                            | _ \<Rightarrow> map_option (\<lambda>t. replacement @ t) (unquote_body s2))
                         else map_option (\<lambda>t. EncodeRune r @ t) (unquote_body s2))
                | _ \<Rightarrow> None)
             else
               (case map_of
                   [(CHR 0x22, CHR 0x22), (CHR 0x5C, CHR 0x5C), (CHR ''/'', CHR ''/''),
                    (CHR ''b'', CHR 0x08), (CHR ''f'', CHR 0x0C), (CHR ''n'', CHR ''\<newline>''),
                    (CHR ''r'', CHR 0x0D), (CHR ''t'', CHR 0x09)] e of
                  None \<Rightarrow> None
                | Some x \<Rightarrow> map_option (\<lambda>t. x # t) (unquote_body s1)))
      else if byte c < 0x20 then None
      else map_option (\<lambda>t. c # t) (unquote_body s))"

text \<open>
  \<^verbatim>\<open>json.Unmarshal([]byte(val), &s)\<close> for a \<open>val\<close> that starts with a double quote, as every
  \<open>val\<close> of the tokenizer does: the escapes are undone, then the raw bytes that are not UTF-8
  are replaced (an escape never yields part of a byte sequence, so the two passes commute
  with the library's single one).
\<close>

definition json_Unmarshal_string :: "string \<Rightarrow> string option" where
  "json_Unmarshal_string val =
     (case val of
        [] \<Rightarrow> None
      | q # s \<Rightarrow> if q = CHR 0x22 then map_option utf8_coerce (unquote_body s) else None)"

section \<open>The tokenizer\<close>

text \<open>
  \<^verbatim>\<open>buildToken\<close>: the payload is chosen by the token type, with Go's type assertions on the
  \<^verbatim>\<open>interface{}\<close> argument; the token is stamped with the tokenizer's line and column and
  appended, unless its type is \<open>TokenInvalid\<close>, which panics with the value 1.
\<close>

definition buildToken :: "Tokenizer \<Rightarrow> TokenType \<Rightarrow> arg \<Rightarrow> panic_value + Tokenizer" where
  "buildToken t tt v =
     (case
        (if tt = TokenComment \<or> tt = TokenString then
           (case v of ArgString x \<Rightarrow> Inr (zeroValue\<lparr>vString := x, vType := TokenValueString\<rparr>)
            | _ \<Rightarrow> Inl (PanicRuntime InterfaceConversion))
         else if tt = TokenBoolean then
           (case v of ArgBool b \<Rightarrow> Inr (zeroValue\<lparr>vBool := b, vType := TokenValueBool\<rparr>)
            | _ \<Rightarrow> Inl (PanicRuntime InterfaceConversion))
         else if tt = TokenNumber \<or> tt = TokenIndent then
           (case v of ArgInt n \<Rightarrow> Inr (zeroValue\<lparr>vInt := n, vType := TokenValueInt\<rparr>)
            | _ \<Rightarrow> Inl (PanicRuntime InterfaceConversion))
         else Inr zeroValue)
      of
        Inl p \<Rightarrow> Inl p
      | Inr tv \<Rightarrow>
          if tt = TokenInvalid then Inl (PanicInt 1)
          else Inr (t\<lparr>tokens := tokens t @
                 [\<lparr>Line = line t, Col = col t, Type = tt, Value = tv\<lparr>valid := True\<rparr>\<rparr>]\<rparr>))"

text \<open>
  The loop \<^verbatim>\<open>for i := 1; input[i] == ' '; i++ { indentSize++ }\<close>. It has no bound on \<open>i\<close>:
  reading past the last byte is Go's index-out-of-range panic.
\<close>

function indentRun :: "string \<Rightarrow> nat \<Rightarrow> nat \<Rightarrow> panic_value + nat" where
  "indentRun input i indentSize =
     (if i < length input then
        (if input ! i = CHR '' '' then indentRun input (i + 1) (indentSize + 1)
         else Inr indentSize)
      else Inl (PanicRuntime IndexOutOfRange))"
  by pat_completeness auto
termination
  by (relation "measure (\<lambda>(input, i, n). length input - i)") auto

declare indentRun.simps [simp del]

text \<open>
  The scan for the closing quote, from \<open>i\<close> on. The test \<^verbatim>\<open>input[i-2]\<close> is only evaluated
  when \<^verbatim>\<open>input[i-1]\<close> is a backslash.
\<close>

function quoteEnd :: "string \<Rightarrow> nat \<Rightarrow> panic_value + nat" where
  "quoteEnd input i =
     (if i < length input then
        (if input ! i = CHR 0x22 then
           (if input ! (i - 1) = CHR 0x5C then
              (if i < 2 then Inl (PanicRuntime IndexOutOfRange)
               else if input ! (i - 2) \<noteq> CHR 0x5C then quoteEnd input (i + 1)
               else Inr (i + 1))
            else Inr (i + 1))
         else quoteEnd input (i + 1))
      else Inr i)"
  by pat_completeness auto
termination
  by (relation "measure (\<lambda>(input, i). length input - i)") auto

declare quoteEnd.simps [simp del]

definition delimiter :: "char \<Rightarrow> bool" where
  "delimiter c = (c = CHR '':'' \<or> c = CHR '' '' \<or> c = CHR 0x0D \<or> c = CHR ''\<newline>'' \<or> c = CHR '','')"

text \<open>What one turn of the loop decides before the shared bookkeeping at its end.\<close>

datatype scanned = Chop Tokenizer nat | Return error | Panic panic_value

definition built :: "panic_value + Tokenizer \<Rightarrow> nat \<Rightarrow> scanned" where
  "built r chop = (case r of Inl p \<Rightarrow> Panic p | Inr t \<Rightarrow> Chop t chop)"

text \<open>The chain of rules of \<^verbatim>\<open>tokenize\<close>, in the order of the source, for a non-empty input.\<close>

definition scan :: "Tokenizer \<Rightarrow> string \<Rightarrow> scanned" where
  "scan t input =
     (if input ! 0 = CHR ''\<newline>'' \<or> input ! 0 = CHR 0x0D then
        built (buildToken (t\<lparr>line := line t + 1, col := 0\<rparr>) TokenNewLine ArgNil)
          (if length input > 1 \<and> input ! 1 = CHR ''\<newline>'' then 2 else 1)
      else if input ! 0 = CHR ''#'' then
        (let nextNewLine =
               (case IndexNL (drop 1 input) of None \<Rightarrow> length input | Some k \<Rightarrow> k) + 1
         in if nextNewLine > length input then Panic (PanicRuntime SliceBoundsOutOfRange)
            else built (buildToken t TokenComment (ArgString (take (nextNewLine - 1) (drop 1 input))))
                   nextNewLine)
      else if input ! 0 = CHR '' '' then
        (if lastNewLine t then
           (case indentRun input 1 1 of
              Inl p \<Rightarrow> Panic p
            | Inr indentSize \<Rightarrow>
                if indentSize mod 2 = 1 then Return (ErrorsNew ''Invalid number of spaces'')
                else built (buildToken t TokenIndent (ArgInt (int indentSize div 2))) indentSize)
         else Chop t 1)
      else if input ! 0 = CHR 0x22 then
        (case quoteEnd input 1 of
           Inl p \<Rightarrow> Panic p
         | Inr i \<Rightarrow>
             (case json_Unmarshal_string (take i input) of
                None \<Rightarrow> built (buildToken t TokenInvalid ArgNil) i
              | Some s \<Rightarrow> built (buildToken t TokenString (ArgString s)) i))
      else if is_digit (input ! 0) then
        (let val = numberPattern_FindString input
         in built (buildToken t TokenNumber (ArgInt (Atoi val))) (length val))
      else if HasPrefix input ''true'' then built (buildToken t TokenBoolean (ArgBool True)) 4
      else if HasSuffix input ''false'' then built (buildToken t TokenBoolean (ArgBool False)) 5
      else if input ! 0 = CHR '':'' then built (buildToken t TokenColon ArgNil) 1
      else if input ! 0 = CHR '','' then built (buildToken t TokenComma ArgNil) 1
      else if strPattern_MatchString input then
        (let i = length (takeWhile (\<lambda>c. \<not> delimiter c) input)
         in built (buildToken t TokenString (ArgString (take i input))) i)
      else built (buildToken t TokenInvalid ArgNil) 0)"

text \<open>
  \<^verbatim>\<open>t.lastNewLine = input[0] == '\n' || (input[0] == '\r' && input[1] == '\n')\<close>:
  a carriage return that ends the input makes \<^verbatim>\<open>input[1]\<close> panic.
\<close>

definition armed :: "string \<Rightarrow> panic_value + bool" where
  "armed input =
     (if input ! 0 = CHR ''\<newline>'' then Inr True
      else if input ! 0 = CHR 0x0D then
        (if 1 < length input then Inr (input ! 1 = CHR ''\<newline>'')
         else Inl (PanicRuntime IndexOutOfRange))
      else Inr False)"

text \<open>
  \<^verbatim>\<open>Tokenizer.tokenize\<close>. The result is a panic, or the tokenizer with the error the method
  returns (\<open>None\<close> for \<^verbatim>\<open>nil\<close>).
\<close>

function tokenize :: "Tokenizer \<Rightarrow> string \<Rightarrow> panic_value + Tokenizer \<times> error option" where
  "tokenize t input =
     (if length input > 0 then
        (case scan t input of
           Panic p \<Rightarrow> Inl p
         | Return e \<Rightarrow> Inr (t, Some e)
         | Chop t1 chop \<Rightarrow>
             (case (if chop = 0 then buildToken t1 TokenInvalid ArgNil else Inr t1) of
                Inl p \<Rightarrow> Inl p
              | Inr t2 \<Rightarrow>
                  (case armed input of
                     Inl p \<Rightarrow> Inl p
                   | Inr b \<Rightarrow>
                       if chop = 0 then Inl (PanicString ''chop is zero'')
                       else if chop > length input then Inl (PanicRuntime SliceBoundsOutOfRange)
                       else tokenize (t2\<lparr>col := col t2 + int chop, lastNewLine := b\<rparr>)
                              (drop chop input))))
      else
        (case buildToken t TokenEOF ArgNil of
           Inl p \<Rightarrow> Inl p
         | Inr t' \<Rightarrow> Inr (t', None)))"
  by pat_completeness auto
termination
  by (relation "measure (\<lambda>(t, input). length input)") auto

declare tokenize.simps [simp del]

text \<open>The tokens the rules for line terminators, indentation and booleans append.\<close>

definition newLineToken :: "Tokenizer \<Rightarrow> Token" where
  "newLineToken t =
     \<lparr>Line = line t + 1, Col = 0, Type = TokenNewLine, Value = zeroValue\<lparr>valid := True\<rparr>\<rparr>"

definition indentToken :: "Tokenizer \<Rightarrow> nat \<Rightarrow> Token" where
  "indentToken t n =
     \<lparr>Line = line t, Col = col t, Type = TokenIndent,
      Value = zeroValue\<lparr>vInt := int n div 2, vType := TokenValueInt, valid := True\<rparr>\<rparr>"

definition booleanToken :: "Tokenizer \<Rightarrow> bool \<Rightarrow> Token" where
  "booleanToken t b =
     \<lparr>Line = line t, Col = col t, Type = TokenBoolean,
      Value = zeroValue\<lparr>vBool := b, vType := TokenValueBool, valid := True\<rparr>\<rparr>"

definition newLines :: "Token list \<Rightarrow> nat" where
  "newLines ts = length (filter (\<lambda>tk. Type tk = TokenNewLine) ts)"

section \<open>The parser\<close>

subsection \<open>Library functions the parser calls\<close>

text \<open>
  \<^verbatim>\<open>strings.TrimSpace\<close> removes the leading and the trailing white space of Unicode: the
  six ASCII characters, U+0085 and U+00A0, and the code points with the property
  \<^verbatim>\<open>White_Space\<close> beyond Latin-1, each in its UTF-8 encoding.
\<close>

definition space_runes :: "string list" where
  "space_runes =
     [[CHR 0x09], [CHR ''\<newline>''], [CHR 0x0B], [CHR 0x0C], [CHR 0x0D], [CHR '' ''],
      [CHR 0xC2, CHR 0x85], [CHR 0xC2, CHR 0xA0], [CHR 0xE1, CHR 0x9A, CHR 0x80],
      [CHR 0xE2, CHR 0x80, CHR 0x80], [CHR 0xE2, CHR 0x80, CHR 0x81], [CHR 0xE2, CHR 0x80, CHR 0x82],
      [CHR 0xE2, CHR 0x80, CHR 0x83], [CHR 0xE2, CHR 0x80, CHR 0x84], [CHR 0xE2, CHR 0x80, CHR 0x85],
      [CHR 0xE2, CHR 0x80, CHR 0x86], [CHR 0xE2, CHR 0x80, CHR 0x87], [CHR 0xE2, CHR 0x80, CHR 0x88],
      [CHR 0xE2, CHR 0x80, CHR 0x89], [CHR 0xE2, CHR 0x80, CHR 0x8A], [CHR 0xE2, CHR 0x80, CHR 0xA8],
      [CHR 0xE2, CHR 0x80, CHR 0xA9], [CHR 0xE2, CHR 0x80, CHR 0xAF], [CHR 0xE2, CHR 0x81, CHR 0x9F],
      [CHR 0xE3, CHR 0x80, CHR 0x80]]"

lemma find_rune_shorter:
  assumes "find (\<lambda>r. r \<noteq> [] \<and> HasPrefix s r) rs = Some r"
  shows "length (drop (length r) s) < length s"
proof -
  from assms have "r \<noteq> [] \<and> HasPrefix s r"
    by (auto simp: find_Some_iff)
  then have "0 < length r" and "length r \<le> length s"
    by (auto simp: HasPrefix_def)
  then show ?thesis
    unfolding length_drop by linarith
qed

function trimLeft :: "string list \<Rightarrow> string \<Rightarrow> string" where
  "trimLeft rs s =
     (case find (\<lambda>r. r \<noteq> [] \<and> HasPrefix s r) rs of
        None \<Rightarrow> s
      | Some r \<Rightarrow> trimLeft rs (drop (length r) s))"
  by pat_completeness auto
termination
  by (relation "measure (\<lambda>(rs, s). length s)") (auto dest: find_rune_shorter)

declare trimLeft.simps [simp del]

definition TrimSpace :: "string \<Rightarrow> string" where
  "TrimSpace s = rev (trimLeft (map rev space_runes) (rev (trimLeft space_runes s)))"

text \<open>
  \<^verbatim>\<open>_versionRegex\<close> \<^verbatim>\<open>^yarn lockfile v(\d+)$\<close>: \<open>FindStringSubmatch\<close> gives the digits of the
  group when the whole string matches, and nothing otherwise.
\<close>

definition versionRegex_FindStringSubmatch :: "string \<Rightarrow> string option" where
  "versionRegex_FindStringSubmatch s =
     (let ds = drop (length ''yarn lockfile v'') s
      in if HasPrefix s ''yarn lockfile v'' \<and> ds \<noteq> [] \<and> list_all is_digit ds then Some ds
         else None)"

definition LockfileVersion :: int where
  "LockfileVersion = 1"

text \<open>\<^verbatim>\<open>%d\<close> of \<^verbatim>\<open>fmt\<close>, and \<^verbatim>\<open>strconv.Itoa\<close>.\<close>

function digits :: "nat \<Rightarrow> string" where
  "digits n = (if n < 10 then [char_of (48 + n)] else digits (n div 10) @ [char_of (48 + n mod 10)])"
  by pat_completeness auto
termination
  by (relation "measure id") auto

declare digits.simps [simp del]

definition Itoa :: "int \<Rightarrow> string" where
  "Itoa n = (if n < 0 then CHR ''-'' # digits (nat (- n)) else digits (nat n))"

definition FormatBool :: "bool \<Rightarrow> string" where
  "FormatBool b = (if b then ''true'' else ''false'')"

text \<open>The message of the panic that \<^verbatim>\<open>onComment\<close> raises for a lockfile that is too new.\<close>

definition versionMessage :: "int \<Rightarrow> int \<Rightarrow> string" where
  "versionMessage version supported =
     ''Can't install from a lockfile of version '' @ Itoa version
     @ '' as you're on an old yarn version that only supports versions up to '' @ Itoa supported
     @ ''. Run '' @ [CHR 0x5C, CHR 0x60] @ ''$ yarn self-update'' @ [CHR 0x5C, CHR 0x60]
     @ '' to upgrade to the latest version.''"

text \<open>\<^verbatim>\<open>%v\<close> of a token: the fields of the struct between braces, integers for the two enums.\<close>

definition typeNumber :: "TokenType \<Rightarrow> int" where
  "typeNumber tt =
     (case tt of TokenNone \<Rightarrow> 0 | TokenBoolean \<Rightarrow> 1 | TokenString \<Rightarrow> 2 | TokenIdentifier \<Rightarrow> 3
      | TokenEOF \<Rightarrow> 4 | TokenColon \<Rightarrow> 5 | TokenNewLine \<Rightarrow> 6 | TokenComment \<Rightarrow> 7
      | TokenIndent \<Rightarrow> 8 | TokenInvalid \<Rightarrow> 9 | TokenNumber \<Rightarrow> 10 | TokenComma \<Rightarrow> 11)"

definition valueTypeNumber :: "ValueType \<Rightarrow> int" where
  "valueTypeNumber vt =
     (case vt of TokenValueVoid \<Rightarrow> 0 | TokenValueInt \<Rightarrow> 1 | TokenValueString \<Rightarrow> 2
      | TokenValueBool \<Rightarrow> 3)"

definition formatToken :: "Token \<Rightarrow> string" where
  "formatToken tk =
     ''{'' @ Itoa (Line tk) @ '' '' @ Itoa (Col tk) @ '' '' @ Itoa (typeNumber (Type tk))
     @ '' {'' @ Itoa (vInt (Value tk)) @ '' '' @ vString (Value tk) @ '' ''
     @ FormatBool (vBool (Value tk)) @ '' '' @ FormatBool (valid (Value tk)) @ '' ''
     @ Itoa (valueTypeNumber (vType (Value tk))) @ ''}}''"

subsection \<open>The parser's state and its token cursor\<close>

text \<open>The field \<^verbatim>\<open>tokens\<close> of the parser is \<open>ptokens\<close> here, the tokenizer has the name.\<close>

record Parser =
  fileLoc :: string
  token :: Token
  ptokens :: "Token list"
  tokenPtr :: nat
  comments :: "string list"

definition onComment :: "Parser \<Rightarrow> Token \<Rightarrow> panic_value + Parser" where
  "onComment p tk =
     (if \<not> isString tk then Inl (PanicString ''expected token value to be a string'')
      else
        (let comment = TrimSpace (vString (Value tk));
             p' = p\<lparr>comments := comments p @ [comment]\<rparr>
         in case versionRegex_FindStringSubmatch comment of
              None \<Rightarrow> Inr p'
            | Some ds \<Rightarrow>
                if Atoi ds > LockfileVersion
                then Inl (PanicString (versionMessage (Atoi ds) LockfileVersion))
                else Inr p'))"

text \<open>
  \<^verbatim>\<open>Parser.next\<close> (\<open>next\<close> is a keyword here); the token it returns is the \<open>token\<close> of the
  parser it leaves.
\<close>

function nextToken :: "Parser \<Rightarrow> panic_value + Parser" where
  "nextToken p =
     (if tokenPtr p \<ge> length (ptokens p) then Inl (PanicString ''No more tokens'')
      else
        (let tk = ptokens p ! tokenPtr p;
             p1 = p\<lparr>tokenPtr := tokenPtr p + 1\<rparr>
         in if Type tk = TokenComment then
              (case onComment p1 tk of Inl e \<Rightarrow> Inl e | Inr p2 \<Rightarrow> nextToken p2)
            else Inr (p1\<lparr>token := tk\<rparr>)))"
  by pat_completeness auto

lemma onComment_cursor:
  "onComment p tk = Inr p' \<Longrightarrow> tokenPtr p' = tokenPtr p \<and> ptokens p' = ptokens p"
  by (auto simp: onComment_def Let_def split: if_splits option.splits)

termination nextToken
  by (relation "measure (\<lambda>p. length (ptokens p) - tokenPtr p)") (auto dest!: onComment_cursor)

declare nextToken.simps [simp del]

text \<open>\<^verbatim>\<open>Parser.unexpected\<close>: the value it panics with.\<close>

definition unexpected :: "Parser \<Rightarrow> string \<Rightarrow> panic_value" where
  "unexpected p msg =
     (if msg = [] then PanicString ''Unexpected token''
      else PanicString (msg @ Itoa (Line (token p)) @ '':'' @ Itoa (Col (token p))
             @ '' in '' @ fileLoc p))"

definition expect :: "Parser \<Rightarrow> TokenType \<Rightarrow> panic_value + Parser" where
  "expect p tt = (if Type (token p) = tt then nextToken p else Inl (unexpected p []))"

definition eat :: "Parser \<Rightarrow> TokenType \<Rightarrow> panic_value + Parser \<times> bool" where
  "eat p tt =
     (if Type (token p) = tt then (case nextToken p of Inl e \<Rightarrow> Inl e | Inr p' \<Rightarrow> Inr (p', True))
      else Inr (p, False))"

definition isValidPropValueToken :: "Token \<Rightarrow> bool" where
  "isValidPropValueToken tk =
     (Type tk = TokenBoolean \<or> Type tk = TokenString \<or> Type tk = TokenNumber)"

subsection \<open>The document and the recursive descent\<close>

text \<open>
  What \<^verbatim>\<open>parse\<close> returns: a \<^verbatim>\<open>map[TokenValue]interface{}\<close> whose values are token values or
  maps of the same kind. A Go map is an association list with one pair for each key;
  \<^verbatim>\<open>obj[key] = v\<close> is \<open>AList.update\<close>, which replaces the value of a key that is present and
  adds the pair otherwise.
\<close>

datatype node = Scalar TokenValue | Mapping "(TokenValue \<times> node) list"

type_synonym object = "(TokenValue \<times> node) list"

definition assignAll :: "TokenValue list \<Rightarrow> node \<Rightarrow> object \<Rightarrow> object" where
  "assignAll keys v obj = fold (\<lambda>key. AList.update key v) keys obj"

text \<open>How far the cursor is from the end of the tokens.\<close>

definition remaining :: "Parser \<Rightarrow> nat" where
  "remaining p = length (ptokens p) - tokenPtr p"

lemma nextToken_remaining: "nextToken p = Inr p' \<Longrightarrow> remaining p' < remaining p"
proof (induction p arbitrary: p' rule: nextToken.induct)
  case (1 p)
  let ?tk = "ptokens p ! tokenPtr p"
  let ?p1 = "p\<lparr>tokenPtr := tokenPtr p + 1\<rparr>"
  from "1.prems" have inside: "\<not> tokenPtr p \<ge> length (ptokens p)"
    by (subst (asm) nextToken.simps) (simp split: if_splits)
  show ?case
  proof (cases "Type ?tk = TokenComment")
    case False
    with inside "1.prems" have "p' = ?p1\<lparr>token := ?tk\<rparr>"
      by (subst (asm) nextToken.simps) (simp add: Let_def)
    with inside show ?thesis
      by (simp add: remaining_def)
  next
    case True
    with inside "1.prems"
    obtain p2 where oc: "onComment ?p1 ?tk = Inr p2" and nx: "nextToken p2 = Inr p'"
      by (subst (asm) nextToken.simps) (simp add: Let_def split: sum.splits)
    from "1.IH"[OF inside refl refl True oc nx]
    have "remaining p' < remaining p2" .
    moreover from onComment_cursor[OF oc] have "remaining p2 = remaining ?p1"
      by (simp add: remaining_def)
    ultimately show ?thesis
      by (simp add: remaining_def)
  qed
qed

text \<open>
  The inner loop of \<^verbatim>\<open>parse\<close> that collects the keys after the first one:
  \<^verbatim>\<open>for p.token.Type == TokenComma { ... }\<close>.
\<close>

function collectKeys :: "TokenValue list \<Rightarrow> Parser \<Rightarrow> panic_value + TokenValue list \<times> Parser" where
  "collectKeys keys p =
     (if Type (token p) = TokenComma then
        (case nextToken p of
           Inl e \<Rightarrow> Inl e
         | Inr p1 \<Rightarrow>
             if Type (token p1) \<noteq> TokenString then Inl (unexpected p1 ''Expected string'')
             else if IsEmpty (Value (token p1)) then Inl (PanicString ''Expected a key'')
             else
               (case nextToken p1 of
                  Inl e \<Rightarrow> Inl e
                | Inr p2 \<Rightarrow> collectKeys (keys @ [Value (token p1)]) p2))
      else Inr (keys, p))"
  by pat_completeness auto
termination
proof (relation "measure (\<lambda>(keys, p). remaining p)", goal_cases)
  case 1
  show ?case by simp
next
  case (2 keys p p1 p2)
  from nextToken_remaining[OF 2(2)] nextToken_remaining[OF 2(5)] show ?case by simp
qed

declare collectKeys.simps [simp del]

lemma collectKeys_remaining:
  "collectKeys keys p = Inr (keys', p') \<Longrightarrow> remaining p' \<le> remaining p"
proof (induction keys p arbitrary: keys' p' rule: collectKeys.induct)
  case (1 keys p)
  show ?case
  proof (cases "Type (token p) = TokenComma")
    case False
    with "1.prems" show ?thesis
      by (subst (asm) collectKeys.simps) simp
  next
    case True
    with "1.prems" obtain p1 p2 where n1: "nextToken p = Inr p1"
      and str: "\<not> Type (token p1) \<noteq> TokenString" and ne: "\<not> IsEmpty (Value (token p1))"
      and n2: "nextToken p1 = Inr p2"
      and rec: "collectKeys (keys @ [Value (token p1)]) p2 = Inr (keys', p')"
      by (subst (asm) collectKeys.simps) (simp split: sum.splits if_splits)
    from "1.IH"[OF True n1 str ne n2 rec] nextToken_remaining[OF n1] nextToken_remaining[OF n2]
    show ?thesis by simp
  qed
qed

text \<open>
  The \<^verbatim>\<open>for\<close> loop of \<^verbatim>\<open>Parser.parse\<close>, with the map \<open>obj\<close> it fills and the parser
  it advances. The loop ends (\<^verbatim>\<open>break\<close>) with the map and the parser as they are, or in a
  panic. The recursive call \<^verbatim>\<open>p.parse(indent + 1)\<close> starts the loop on an empty map.
\<close>

function parseLoop :: "int \<Rightarrow> object \<Rightarrow> Parser \<Rightarrow> panic_value + object \<times> Parser" where
  "parseLoop indent obj p =
     (let propToken = token p in
      if Type propToken = TokenNewLine then
        (case nextToken p of
           Inl e \<Rightarrow> Inl e
         | Inr p1 \<Rightarrow>
             if indent = 0 then parseLoop indent obj p1
             else if Type (token p1) \<noteq> TokenIndent then Inr (obj, p1)
             else if vInt (Value (token p1)) = indent then
               (case nextToken p1 of Inl e \<Rightarrow> Inl e | Inr p2 \<Rightarrow> parseLoop indent obj p2)
             else Inr (obj, p1))
      else if Type propToken = TokenIndent then
        (if vInt (Value propToken) = indent then
           (case nextToken p of Inl e \<Rightarrow> Inl e | Inr p1 \<Rightarrow> parseLoop indent obj p1)
         else Inr (obj, p))
      else if Type propToken = TokenEOF then Inr (obj, p)
      else if Type propToken = TokenString then
        (if IsEmpty (Value propToken) then Inl (PanicString ''Expected a key'')
         else
           (case nextToken p of
              Inl e \<Rightarrow> Inl e
            | Inr p1 \<Rightarrow>
                (case collectKeys [Value propToken] p1 of
                   Inl e \<Rightarrow> Inl e
                 | Inr (keys, p2) \<Rightarrow>
                     (let wasColon = (Type (token p2) = TokenColon) in
                      case (if wasColon then nextToken p2 else Inr p2) of
                        Inl e \<Rightarrow> Inl e
                      | Inr p3 \<Rightarrow>
                          if isValidPropValueToken (token p3) then
                            (case nextToken p3 of
                               Inl e \<Rightarrow> Inl e
                             | Inr p4 \<Rightarrow>
                                 parseLoop indent
                                   (assignAll keys (Scalar (Value (token p3))) obj) p4)
                          else if wasColon then
                            (case parseLoop (indent + 1) [] p3 of
                               Inl e \<Rightarrow> Inl e
                             | Inr (val, p4) \<Rightarrow>
                                 if indent \<noteq> 0 \<and> Type (token p4) \<noteq> TokenIndent
                                 then Inr (assignAll keys (Mapping val) obj, p4)
                                 else parseLoop indent (assignAll keys (Mapping val) obj) p4)
                          else Inl (unexpected p3 ''Invalid value type'')))))
      else Inl (unexpected p (''Unknown token: '' @ formatToken propToken)))"
  by pat_completeness auto


lemma parseLoop_remaining_dom:
  "parseLoop_dom (indent, obj, p) \<Longrightarrow> parseLoop indent obj p = Inr (obj', p')
     \<Longrightarrow> remaining p' \<le> remaining p"
proof (induction indent obj p arbitrary: obj' p' rule: parseLoop.pinduct)
  case (1 indent obj p)
  note eq = "1.prems"[unfolded parseLoop.psimps[OF "1.hyps"] Let_def]
  show ?case
  proof (cases "Type (token p) = TokenNewLine")
    case True
    with eq obtain p1 where n1: "nextToken p = Inr p1"
      by (auto split: sum.splits)
    note r1 = nextToken_remaining[OF n1]
    show ?thesis
    proof (cases "indent = 0")
      case z: True
      with eq True n1 have "parseLoop indent obj p1 = Inr (obj', p')" by simp
      from "1.IH"(1)[OF refl True n1 z this] r1 show ?thesis by simp
    next
      case nz: False
      show ?thesis
      proof (cases "Type (token p1) \<noteq> TokenIndent \<or> vInt (Value (token p1)) \<noteq> indent")
        case True
        with eq \<open>Type (token p) = TokenNewLine\<close> n1 nz have "p' = p1"
          by (auto split: if_splits)
        with r1 show ?thesis by simp
      next
        case False
        with eq \<open>Type (token p) = TokenNewLine\<close> n1 nz obtain p2
          where n2: "nextToken p1 = Inr p2" and rec: "parseLoop indent obj p2 = Inr (obj', p')"
          by (auto split: sum.splits)
        from False have a: "\<not> Type (token p1) \<noteq> TokenIndent" and b: "vInt (Value (token p1)) = indent"
          by auto
        from "1.IH"(2)[OF refl \<open>Type (token p) = TokenNewLine\<close> n1 nz a b n2 rec]
          r1 nextToken_remaining[OF n2]
        show ?thesis by simp
      qed
    qed
  next
    case notnl: False
    show ?thesis
    proof (cases "Type (token p) = TokenIndent")
      case True
      show ?thesis
      proof (cases "vInt (Value (token p)) = indent")
        case same: True
        with eq notnl True obtain p1 where n1: "nextToken p = Inr p1"
          and rec: "parseLoop indent obj p1 = Inr (obj', p')"
          by (auto split: sum.splits)
        from "1.IH"(3)[OF refl notnl True same n1 rec] nextToken_remaining[OF n1]
        show ?thesis by simp
      next
        case False
        with eq notnl True show ?thesis by (auto split: if_splits)
      qed
    next
      case notind: False
      show ?thesis
      proof (cases "Type (token p) = TokenEOF")
        case True
        with eq notnl notind show ?thesis by (auto split: if_splits)
      next
        case noteof: False
        show ?thesis
        proof (cases "Type (token p) = TokenString")
          case False
          with eq notnl notind noteof show ?thesis by (auto split: if_splits)
        next
          case str: True
          with eq notnl notind noteof obtain p1 keys p2 p3
            where ne: "\<not> IsEmpty (Value (token p))"
              and n1: "nextToken p = Inr p1"
              and ck: "collectKeys [Value (token p)] p1 = Inr (keys, p2)"
              and n3: "(if Type (token p2) = TokenColon then nextToken p2 else Inr p2) = Inr p3"
            by (auto split: sum.splits if_splits prod.splits)
          have r3: "remaining p3 < remaining p"
            using nextToken_remaining[OF n1] collectKeys_remaining[OF ck] n3
            by (auto split: if_splits dest: nextToken_remaining)
          note base = refl notnl notind noteof str ne n1 ck refl refl n3
          show ?thesis
          proof (cases "isValidPropValueToken (token p3)")
            case True
            with eq notnl notind noteof str ne n1 ck n3 obtain p4
              where n4: "nextToken p3 = Inr p4"
                and rec: "parseLoop indent (assignAll keys (Scalar (Value (token p3))) obj) p4
                           = Inr (obj', p')"
              by (auto split: sum.splits if_splits)
            from "1.IH"(4)[OF base True n4 rec] r3 nextToken_remaining[OF n4]
            show ?thesis by simp
          next
            case notval: False
            with eq notnl notind noteof str ne n1 ck n3
            have colon: "Type (token p2) = TokenColon"
              by (auto split: sum.splits if_splits)
            with eq notnl notind noteof str ne n1 ck n3 notval obtain val p4
              where inner: "parseLoop (indent + 1) [] p3 = Inr (val, p4)"
              by (auto split: sum.splits if_splits prod.splits)
            from "1.IH"(5)[OF base notval colon inner] have r4: "remaining p4 \<le> remaining p3" .
            show ?thesis
            proof (cases "indent \<noteq> 0 \<and> Type (token p4) \<noteq> TokenIndent")
              case True
              with eq notnl notind noteof str ne n1 ck n3 notval colon inner
              have "p' = p4" by (auto split: sum.splits if_splits)
              with r3 r4 show ?thesis by simp
            next
              case False
              with eq notnl notind noteof str ne n1 ck n3 notval colon inner
              have rec: "parseLoop indent (assignAll keys (Mapping val) obj) p4 = Inr (obj', p')"
                by (auto split: sum.splits if_splits)
              from "1.IH"(6)[OF base notval colon inner refl False rec] r3 r4
              show ?thesis by simp
            qed
          qed
        qed
      qed
    qed
  qed
qed

termination parseLoop
proof (relation "measure (\<lambda>(indent, obj, p). remaining p)", goal_cases)
  case 1
  show ?case by simp
next
  case (2 indent obj p x b)
  then show ?case by (simp add: nextToken_remaining)
next
  case (3 indent obj p x b ba)
  from nextToken_remaining[OF 3(3)] nextToken_remaining[OF 3(7)] show ?case by simp
next
  case (4 indent obj p x b)
  then show ?case by (simp add: nextToken_remaining)
next
  case (5 indent obj p x b ba xa y xb bb bc)
  have "remaining bb \<le> remaining y"
    using 5(11) by (auto split: if_splits dest: nextToken_remaining)
  with nextToken_remaining[OF 5(7)] collectKeys_remaining[of "[Value x]" b xa y] 5(8,9)
    nextToken_remaining[OF 5(13)]
  show ?case by simp
next
  case (6 indent obj p x b ba xa y xb bb)
  have "remaining bb \<le> remaining y"
    using 6(11) by (auto split: if_splits dest: nextToken_remaining)
  with nextToken_remaining[OF 6(7)] collectKeys_remaining[of "[Value x]" b xa y] 6(8,9)
  show ?case by simp
next
  case (7 indent obj p x b ba xa y xb bb bc xc ya)
  have "remaining bb \<le> remaining y"
    using 7(11) by (auto split: if_splits dest: nextToken_remaining)
  moreover from parseLoop_remaining_dom[OF 7(17)] 7(14,15)
  have "remaining ya \<le> remaining bb" by auto
  ultimately show ?case
    using nextToken_remaining[OF 7(7)] collectKeys_remaining[of "[Value x]" b xa y] 7(8,9)
    by simp
qed

declare parseLoop.simps [simp del]

definition parse :: "int \<Rightarrow> Parser \<Rightarrow> panic_value + object \<times> Parser" where
  "parse indent p = parseLoop indent [] p"

section \<open>The typed document\<close>

text \<open>
  \<^verbatim>\<open>LockFile\<close> is a map from keys to entries. A Go map is an association list with one pair
  for each key here; a \<^verbatim>\<open>nil\<close> map and an empty one are both the empty list.
\<close>

record Entry =
  Name :: string
  Version :: string
  UID :: string
  Resolved :: string
  Integrity :: string
  Registry :: string
  Dependencies :: "(string \<times> string) list"
  OptionalDependencies :: "(string \<times> string) list"

type_synonym LockFile = "(string \<times> Entry) list"

definition zeroEntry :: Entry where
  "zeroEntry = \<lparr>Name = [], Version = [], UID = [], Resolved = [], Integrity = [], Registry = [],
     Dependencies = [], OptionalDependencies = []\<rparr>"

text \<open>
  \<^verbatim>\<open>LockFile.RootElement\<close>: the set of the keys, less every \<^verbatim>\<open>k + "@" + v\<close> of the
  \<^verbatim>\<open>Dependencies\<close> of every entry, sorted by \<^verbatim>\<open><\<close> on strings (bytewise, as the order of
  \<^typ>\<open>string\<close> is).
\<close>

definition RootElement :: "LockFile \<Rightarrow> string list" where
  "RootElement f =
     (let keys = remdups (map fst f);
          keys' = fold (\<lambda>(s, v) keys.
                    fold (\<lambda>(k, v) keys. removeAll (k @ ''@'' @ v) keys) (Dependencies v) keys)
                  f keys
      in sort keys')"

subsection \<open>From the parsed map to the typed document, through JSON\<close>

text \<open>
  \<^verbatim>\<open>ParseLockFileData\<close> writes the parsed map as JSON and reads the JSON back into a
  \<^verbatim>\<open>LockFile\<close>. The JSON text in between is kept as a tree.
\<close>

datatype json = JString string | JObject "(string \<times> json) list"

definition MarshalText :: "TokenValue \<Rightarrow> string" where
  "MarshalText t =
     (case vType t of
        TokenValueInt \<Rightarrow> Itoa (vInt t)
      | TokenValueBool \<Rightarrow> FormatBool (vBool t)
      | TokenValueString \<Rightarrow> vString t
      | TokenValueVoid \<Rightarrow> ''void'')"

text \<open>
  \<^verbatim>\<open>json.Marshal\<close> of what \<^verbatim>\<open>parse\<close> returns. A \<^verbatim>\<open>TokenValue\<close> is a \<^verbatim>\<open>TextMarshaler\<close>: as a
  value it becomes the JSON string of its text, as a map key its text; the keys of a map are
  written in the order of their texts. Bytes that are not UTF-8 are replaced when a string is
  written. No value of this shape makes \<^verbatim>\<open>json.Marshal\<close> fail.
\<close>

fun json_Marshal :: "node \<Rightarrow> json" where
  "json_Marshal (Scalar v) = JString (utf8_coerce (MarshalText v))"
| "json_Marshal (Mapping kvs) =
     JObject (map (\<lambda>(ks, j). (utf8_coerce ks, j))
       (sort_key fst (map (\<lambda>(k, n). (MarshalText k, json_Marshal n)) kvs)))"

fun json_depth :: "json \<Rightarrow> nat" where
  "json_depth (JString s) = 0"
| "json_depth (JObject kvs) = Suc (fold max (map (\<lambda>(k, j). json_depth j) kvs) 0)"

text \<open>
  The name of a JSON member selects a struct field when the two are equal up to case:
  \<^verbatim>\<open>foldName\<close> of the library turns ASCII letters to upper case, and U+017F and U+212A to
  the letters \<open>S\<close> and \<open>K\<close> they fold to.
\<close>

definition upper :: "char \<Rightarrow> char" where
  "upper c = (if c \<in> set ''abcdefghijklmnopqrstuvwxyz'' then char_of (byte c - 32) else c)"

fun foldName :: "string \<Rightarrow> string" where
  "foldName [] = []"
| "foldName (a # s) =
     (if a = CHR 0xC5 \<and> take 1 s = [CHR 0xBF] then CHR ''S'' # foldName (drop 1 s)
      else if a = CHR 0xE2 \<and> take 2 s = [CHR 0x84, CHR 0xAA] then CHR ''K'' # foldName (drop 2 s)
      else upper a # foldName s)"

text \<open>
  Decoding into a string field and into a \<^verbatim>\<open>map[string]string\<close> field. A JSON value of the
  wrong kind leaves the target as it is and is reported; the first report is the error of
  \<^verbatim>\<open>json.Unmarshal\<close>.
\<close>

definition first :: "error option \<Rightarrow> error option \<Rightarrow> error option" where
  "first e1 e2 = (case e1 of Some e \<Rightarrow> Some e | None \<Rightarrow> e2)"

definition decodeString :: "json \<Rightarrow> string \<Rightarrow> string \<times> error option" where
  "decodeString j old =
     (case j of JString s \<Rightarrow> (s, None)
      | JObject kvs \<Rightarrow> (old, Some (UnmarshalTypeError ''object'')))"

definition decodeStringMap ::
  "json \<Rightarrow> (string \<times> string) list \<Rightarrow> (string \<times> string) list \<times> error option" where
  "decodeStringMap j old =
     (case j of
        JString s \<Rightarrow> (old, Some (UnmarshalTypeError ''string''))
      | JObject kvs \<Rightarrow>
          fold (\<lambda>(k, v) (m, err).
                  (case decodeString v [] of (s, e) \<Rightarrow> (AList.update k s m, first err e)))
            kvs (old, None))"

definition decodeField :: "string \<Rightarrow> json \<Rightarrow> Entry \<Rightarrow> Entry \<times> error option" where
  "decodeField k j e =
     (let n = foldName k in
      if n = foldName ''name'' then
        (case decodeString j (Name e) of (s, err) \<Rightarrow> (e\<lparr>Name := s\<rparr>, err))
      else if n = foldName ''version'' then
        (case decodeString j (Version e) of (s, err) \<Rightarrow> (e\<lparr>Version := s\<rparr>, err))
      else if n = foldName ''uid'' then
        (case decodeString j (UID e) of (s, err) \<Rightarrow> (e\<lparr>UID := s\<rparr>, err))
      else if n = foldName ''resolved'' then
        (case decodeString j (Resolved e) of (s, err) \<Rightarrow> (e\<lparr>Resolved := s\<rparr>, err))
      else if n = foldName ''integrity'' then
        (case decodeString j (Integrity e) of (s, err) \<Rightarrow> (e\<lparr>Integrity := s\<rparr>, err))
      else if n = foldName ''registry'' then
        (case decodeString j (Registry e) of (s, err) \<Rightarrow> (e\<lparr>Registry := s\<rparr>, err))
      else if n = foldName ''dependencies'' then
        (case decodeStringMap j (Dependencies e) of (m, err) \<Rightarrow> (e\<lparr>Dependencies := m\<rparr>, err))
      else if n = foldName ''optionalDependencies'' then
        (case decodeStringMap j (OptionalDependencies e) of
           (m, err) \<Rightarrow> (e\<lparr>OptionalDependencies := m\<rparr>, err))
      else (e, None))"

definition decodeEntry :: "json \<Rightarrow> Entry \<times> error option" where
  "decodeEntry j =
     (case j of
        JString s \<Rightarrow> (zeroEntry, Some (UnmarshalTypeError ''string''))
      | JObject kvs \<Rightarrow>
          fold (\<lambda>(k, v) (e, err). (case decodeField k v e of (e', er) \<Rightarrow> (e', first err er)))
            kvs (zeroEntry, None))"

text \<open>
  \<^verbatim>\<open>json.Unmarshal(data, &lf)\<close> on a \<^verbatim>\<open>nil\<close> \<open>lf\<close>: what \<open>lf\<close> holds afterwards and the error.
  JSON nested deeper than 10000 levels is refused before anything is decoded.
\<close>

definition json_Unmarshal :: "json \<Rightarrow> LockFile option \<times> error option" where
  "json_Unmarshal j =
     (if json_depth j > 10000 then (None, Some (SyntaxError ''exceeded max depth''))
      else
        (case j of
           JString s \<Rightarrow> (None, Some (UnmarshalTypeError ''string''))
         | JObject kvs \<Rightarrow>
             (case fold (\<lambda>(k, v) (lf, err).
                          (case decodeEntry v of (e, er) \<Rightarrow> (AList.update k e lf, first err er)))
                     kvs ([], None)
              of (lf, err) \<Rightarrow> (Some lf, err))))"

section \<open>The entry point\<close>

text \<open>
  The body of \<^verbatim>\<open>ParseLockFileData\<close> ends in a \<^verbatim>\<open>return\<close> that sets the two named results,
  or in a panic that leaves them as they are at that moment.
\<close>

datatype flow =
    Returns "LockFile option" "error option"
  | Panics panic_value "LockFile option" "error option"

definition newParser :: "Token list \<Rightarrow> Parser" where
  "newParser ts = \<lparr>fileLoc = [], token = zeroToken, ptokens = ts, tokenPtr = 0, comments = []\<rparr>"

definition ParseLockFileData_body :: "string \<Rightarrow> flow" where
  "ParseLockFileData_body data =
     (case tokenize newTokenizer data of
        Inl pv \<Rightarrow> Panics pv None None
      | Inr (tokenizer, Some e) \<Rightarrow> Returns None (Some e)
      | Inr (tokenizer, None) \<Rightarrow>
          (case nextToken (newParser (tokens tokenizer)) of
             Inl pv \<Rightarrow> Panics pv None None
           | Inr parser \<Rightarrow>
               (case parse 0 parser of
                  Inl pv \<Rightarrow> Panics pv None None
                | Inr (obj, parser') \<Rightarrow>
                    (case json_Unmarshal (json_Marshal (Mapping obj)) of
                       (lf, Some e) \<Rightarrow> Returns None (Some (Wrap e ''parse failed''))
                     | (lf, None) \<Rightarrow> Returns lf None))))"

text \<open>The deferred function: what \<^verbatim>\<open>recover\<close> makes of the value of a panic.\<close>

definition recovered :: "panic_value \<Rightarrow> error" where
  "recovered v =
     (case v of
        PanicRuntime r \<Rightarrow> RuntimeError r
      | PanicString m \<Rightarrow> ParseErr m
      | PanicInt n \<Rightarrow> ParseErr ''Unknown err'')"

definition ParseLockFileData :: "string \<Rightarrow> LockFile option \<times> error option" where
  "ParseLockFileData data =
     (case ParseLockFileData_body data of
        Returns lf err \<Rightarrow> (lf, err)
      | Panics v lf err \<Rightarrow> (lf, Some (recovered v)))"

section \<open>Root detection\<close>

lemma deleteDeps_set:
  "set (fold (\<lambda>(k, v) keys. removeAll (g k v) keys) deps keys)
     = set keys - (\<lambda>(k, v). g k v) ` set deps"
  by (induction deps arbitrary: keys) auto

lemma deleteDeps_distinct:
  "distinct keys \<Longrightarrow> distinct (fold (\<lambda>(k, v) keys. removeAll (g k v) keys) deps keys)"
  by (induction deps arbitrary: keys) (auto simp: distinct_removeAll)

lemma deleteAll_set:
  "set (fold (\<lambda>(s, e) keys. fold (\<lambda>(k, v) keys. removeAll (g k v) keys) (D e) keys) f keys)
     = set keys - (\<Union>(s, e) \<in> set f. (\<lambda>(k, v). g k v) ` set (D e))"
proof (induction f arbitrary: keys)
  case Nil
  show ?case by simp
next
  case (Cons a f)
  obtain s e where a: "a = (s, e)" by (cases a)
  have "set (fold (\<lambda>(s, e) keys. fold (\<lambda>(k, v) keys. removeAll (g k v) keys) (D e) keys) (a # f) keys)
      = set (fold (\<lambda>(k, v) keys. removeAll (g k v) keys) (D e) keys)
          - (\<Union>(s, e) \<in> set f. (\<lambda>(k, v). g k v) ` set (D e))"
    unfolding a by (simp add: Cons.IH)
  also have "\<dots> = set keys - (\<Union>(s, e) \<in> set (a # f). (\<lambda>(k, v). g k v) ` set (D e))"
    unfolding a deleteDeps_set by auto
  finally show ?case .
qed

lemma deleteAll_distinct:
  "distinct keys \<Longrightarrow>
   distinct (fold (\<lambda>(s, e) keys. fold (\<lambda>(k, v) keys. removeAll (g k v) keys) (D e) keys) f keys)"
  by (induction f arbitrary: keys) (auto simp: deleteDeps_distinct)

lemma RootElement_set:
  "set (RootElement f)
     = fst ` set f - (\<Union>(s, e) \<in> set f. (\<lambda>(k, v). k @ ''@'' @ v) ` set (Dependencies e))"
  unfolding RootElement_def Let_def set_sort deleteAll_set set_remdups set_map ..

lemma RootElement_distinct: "distinct (RootElement f)"
  unfolding RootElement_def Let_def by (simp add: deleteAll_distinct)

lemma RootElement_sorted: "sorted (RootElement f)"
  unfolding RootElement_def Let_def by simp

text \<open>
  Claim C9. For every typed document, \<^verbatim>\<open>RootElement\<close> returns exactly the keys of the document
  that no entry of the document names in its \<^verbatim>\<open>Dependencies\<close> as name, \<^verbatim>\<open>@\<close>, version range;
  the result is in ascending order of strings, each key once. For the document with the entry
  \<^verbatim>\<open>a@^1.0.0\<close> that depends on \<^verbatim>\<open>b\<close> at \<^verbatim>\<open>1.0.0\<close> and the entry \<^verbatim>\<open>b@1.0.0\<close>, the result is the
  one key \<^verbatim>\<open>a@^1.0.0\<close>.
\<close>

theorem RootElement_unreferenced_sorted:
  "set (RootElement f)
     = {s \<in> fst ` set f.
          \<nexists>e k v. e \<in> snd ` set f \<and> (k, v) \<in> set (Dependencies e) \<and> s = k @ ''@'' @ v}
   \<and> sorted (RootElement f) \<and> distinct (RootElement f)
   \<and> RootElement [(''a@^1.0.0'', zeroEntry\<lparr>Dependencies := [(''b'', ''1.0.0'')]\<rparr>),
                   (''b@1.0.0'', zeroEntry)] = [''a@^1.0.0'']"
proof -
  have "set (RootElement f)
     = {s \<in> fst ` set f.
          \<nexists>e k v. e \<in> snd ` set f \<and> (k, v) \<in> set (Dependencies e) \<and> s = k @ ''@'' @ v}"
    unfolding RootElement_set by force
  moreover have "RootElement [(''a@^1.0.0'', zeroEntry\<lparr>Dependencies := [(''b'', ''1.0.0'')]\<rparr>),
                   (''b@1.0.0'', zeroEntry)] = [''a@^1.0.0'']"
    by (simp add: RootElement_def zeroEntry_def)
  ultimately show ?thesis
    using RootElement_sorted[of f] RootElement_distinct[of f] by blast
qed

theorem RootElement_unreferenced_sorted_witness:
  "sorted (RootElement [(''x@1'', zeroEntry\<lparr>Dependencies := [(''y'', ''2'')]\<rparr>), (''y@2'', zeroEntry)])
   \<and> distinct (RootElement [(''x@1'', zeroEntry\<lparr>Dependencies := [(''y'', ''2'')]\<rparr>), (''y@2'', zeroEntry)])
   \<and> RootElement [(''a@^1.0.0'', zeroEntry\<lparr>Dependencies := [(''b'', ''1.0.0'')]\<rparr>),
                   (''b@1.0.0'', zeroEntry)] = [''a@^1.0.0'']"
  by (rule conjunct2[OF RootElement_unreferenced_sorted])

text \<open>
  Claim C10. \<^verbatim>\<open>RootElement\<close> removes only what the \<^verbatim>\<open>Dependencies\<close> of the entries name and
  never reads \<^verbatim>\<open>OptionalDependencies\<close>: a key that some entry names in its
  \<^verbatim>\<open>OptionalDependencies\<close> and no entry names in its \<^verbatim>\<open>Dependencies\<close> is in the result, and the
  result is the same whatever the \<^verbatim>\<open>OptionalDependencies\<close> of the entries are replaced with.
\<close>

theorem RootElement_ignores_OptionalDependencies:
  assumes "s \<in> fst ` set f"
    and "\<exists>e \<in> snd ` set f. \<exists>(k, v) \<in> set (OptionalDependencies e). s = k @ ''@'' @ v"
    and "\<forall>e \<in> snd ` set f. \<forall>(k, v) \<in> set (Dependencies e). s \<noteq> k @ ''@'' @ v"
  shows "s \<in> set (RootElement f)
    \<and> RootElement (map (\<lambda>(s, e). (s, e\<lparr>OptionalDependencies := g s e\<rparr>)) f) = RootElement f"
proof
  from assms(1,3) show "s \<in> set (RootElement f)"
    unfolding RootElement_set by force
next
  have a: "map fst (map (\<lambda>(s, e). (s, e\<lparr>OptionalDependencies := g s e\<rparr>)) f) = map fst f"
    by (induction f) auto
  have b: "fold (\<lambda>(s, v) keys.
            fold (\<lambda>(k, v) keys. removeAll (k @ ''@'' @ v) keys) (Dependencies v) keys)
          (map (\<lambda>(s, e). (s, e\<lparr>OptionalDependencies := g s e\<rparr>)) f) keys
       = fold (\<lambda>(s, v) keys.
            fold (\<lambda>(k, v) keys. removeAll (k @ ''@'' @ v) keys) (Dependencies v) keys) f keys"
    for keys
    by (induction f arbitrary: keys) auto
  show "RootElement (map (\<lambda>(s, e). (s, e\<lparr>OptionalDependencies := g s e\<rparr>)) f) = RootElement f"
    unfolding RootElement_def Let_def a b ..
qed

theorem RootElement_ignores_OptionalDependencies_witness:
  "''b@2'' \<in> set (RootElement
      [(''a@1'', zeroEntry\<lparr>OptionalDependencies := [(''b'', ''2'')]\<rparr>), (''b@2'', zeroEntry)])"
proof -
  let ?f = "[(''a@1'', zeroEntry\<lparr>OptionalDependencies := [(''b'', ''2'')]\<rparr>), (''b@2'', zeroEntry)]"
  have 1: "''b@2'' \<in> fst ` set ?f" by simp
  have 2: "\<exists>e \<in> snd ` set ?f. \<exists>(k, v) \<in> set (OptionalDependencies e). ''b@2'' = k @ ''@'' @ v"
    by (simp add: zeroEntry_def)
  have 3: "\<forall>e \<in> snd ` set ?f. \<forall>(k, v) \<in> set (Dependencies e). ''b@2'' \<noteq> k @ ''@'' @ v"
    by (simp add: zeroEntry_def)
  from RootElement_ignores_OptionalDependencies[OF 1 2 3] show ?thesis by (rule conjunct1)
qed

section \<open>Properties of the tokenizer\<close>

subsection \<open>Indentation\<close>

lemma indentRun_followed:
  "c \<noteq> CHR '' '' \<Longrightarrow> i \<le> n \<Longrightarrow>
   indentRun (replicate n (CHR '' '') @ c # rest) i k = Inr (k + (n - i))"
proof (induction "n - i" arbitrary: i k)
  case 0
  then show ?case
    by (subst indentRun.simps) (simp add: nth_append)
next
  case (Suc d)
  then have "i < n" by simp
  with Suc(1)[of "i + 1" "k + 1"] Suc(2,3) show ?case
    by (subst indentRun.simps) (simp add: nth_append)
qed

lemma indentRun_at_end:
  "indentRun (replicate n (CHR '' '')) i k = Inl (PanicRuntime IndexOutOfRange)"
proof (induction "n - i" arbitrary: i k)
  case 0
  then show ?case
    by (subst indentRun.simps) simp
next
  case (Suc d)
  then have "i < n" by simp
  with Suc(1)[of "i + 1" "k + 1"] Suc(2) show ?case
    by (subst indentRun.simps) simp
qed

lemma scan_spaces_followed:
  assumes "lastNewLine t" "0 < n" "c \<noteq> CHR '' ''"
  shows "scan t (replicate n (CHR '' '') @ c # rest) =
     (if n mod 2 = 1 then Return (ErrorsNew ''Invalid number of spaces'')
      else Chop (t\<lparr>tokens := tokens t @ [indentToken t n]\<rparr>) n)"
proof -
  let ?input = "replicate n (CHR '' '') @ c # rest"
  from assms(2) have hd: "?input ! 0 = CHR '' ''"
    by (cases n) auto
  have run: "indentRun ?input 1 1 = Inr n"
    using indentRun_followed[OF assms(3), of 1 n rest 1] assms(2) by simp
  show ?thesis
    unfolding scan_def hd run using assms(1)
    by (simp add: built_def buildToken_def indentToken_def zeroValue_def)
qed

lemma scan_spaces_at_end:
  assumes "lastNewLine t" "0 < n"
  shows "scan t (replicate n (CHR '' '')) = Panic (PanicRuntime IndexOutOfRange)"
proof -
  from assms(2) have hd: "replicate n (CHR '' '') ! 0 = CHR '' ''"
    by simp
  show ?thesis
    unfolding scan_def hd indentRun_at_end using assms(1) by simp
qed

lemma tokenize_spaces_followed:
  assumes "lastNewLine t" "0 < n" "c \<noteq> CHR '' ''"
  shows "tokenize t (replicate n (CHR '' '') @ c # rest) =
     (if n mod 2 = 1 then Inr (t, Some (ErrorsNew ''Invalid number of spaces''))
      else tokenize (t\<lparr>tokens := tokens t @ [indentToken t n], col := col t + int n, lastNewLine := False\<rparr>)
             (c # rest))"
proof -
  let ?input = "replicate n (CHR '' '') @ c # rest"
  from assms(2) have hd: "?input ! 0 = CHR '' ''"
    by (cases n) auto
  have arm: "armed ?input = Inr False"
    unfolding armed_def hd by simp
  from assms(2) have n0: "n \<noteq> 0" by simp
  show ?thesis
    by (subst tokenize.simps) (simp add: scan_spaces_followed[OF assms] arm n0)
qed

lemma tokenize_spaces_at_end:
  assumes "lastNewLine t" "0 < n"
  shows "tokenize t (replicate n (CHR '' '')) = Inl (PanicRuntime IndexOutOfRange)"
proof -
  from assms(2) have n0: "n \<noteq> 0" by simp
  show ?thesis
    by (subst tokenize.simps) (simp add: scan_spaces_at_end[OF assms] n0)
qed

text \<open>
  Claim C2. A run of \<open>n\<close> spaces after a line terminator is refused with
  \<^verbatim>\<open>Invalid number of spaces\<close> exactly when \<open>n\<close> is odd, and gives one \<open>Indent\<close> token of value
  \<open>n / 2\<close> when \<open>n\<close> is even. The lemmas above show this for a run that another byte follows.
  A run that ends the input is not counted to its end: the loop reads \<^verbatim>\<open>input[i]\<close> one past the
  last byte and the tokenizer panics, for odd and for even \<open>n\<close> (\<open>tokenize_spaces_at_end\<close>).
  Here the code is run on a line feed followed by one space and by two spaces.
\<close>

theorem spaces_at_end_of_input_panic:
  "tokenize newTokenizer [CHR ''\<newline>'', CHR '' ''] = Inl (PanicRuntime IndexOutOfRange)
   \<and> ParseLockFileData [CHR ''\<newline>'', CHR '' ''] = (None, Some (RuntimeError IndexOutOfRange))
   \<and> tokenize newTokenizer [CHR ''\<newline>'', CHR '' '', CHR '' ''] = Inl (PanicRuntime IndexOutOfRange)"
proof -
  have "tokenize newTokenizer [CHR ''\<newline>'', CHR '' ''] = Inl (PanicRuntime IndexOutOfRange)"
    by code_simp
  moreover have "ParseLockFileData [CHR ''\<newline>'', CHR '' '']
      = (None, Some (RuntimeError IndexOutOfRange))"
    by code_simp
  moreover have "tokenize newTokenizer [CHR ''\<newline>'', CHR '' '', CHR '' '']
      = Inl (PanicRuntime IndexOutOfRange)"
    by code_simp
  ultimately show ?thesis by blast
qed

subsection \<open>Line terminators\<close>

lemma scan_line_terminator:
  assumes "input ! 0 = CHR ''\<newline>'' \<or> input ! 0 = CHR 0x0D"
  shows "scan t input =
     Chop (t\<lparr>line := line t + 1, col := 0, tokens := tokens t @ [newLineToken t]\<rparr>)
       (if length input > 1 \<and> input ! 1 = CHR ''\<newline>'' then 2 else 1)"
  using assms by (auto simp: scan_def built_def buildToken_def newLineToken_def)

lemma tokenize_line_feed:
  assumes "c \<noteq> CHR ''\<newline>''"
  shows "tokenize t (CHR ''\<newline>'' # c # rest) =
     tokenize (t\<lparr>line := line t + 1, tokens := tokens t @ [newLineToken t], col := 1,
                 lastNewLine := True\<rparr>) (c # rest)"
  using assms
  by (subst tokenize.simps) (simp add: scan_line_terminator armed_def)

lemma tokenize_carriage_return_line_feed:
  "tokenize t (CHR 0x0D # CHR ''\<newline>'' # rest) =
     tokenize (t\<lparr>line := line t + 1, tokens := tokens t @ [newLineToken t], col := 2,
                 lastNewLine := True\<rparr>) rest"
  by (subst tokenize.simps) (simp add: scan_line_terminator armed_def)

lemma tokenize_two_line_feeds:
  "tokenize t (CHR ''\<newline>'' # CHR ''\<newline>'' # rest) =
     tokenize (t\<lparr>line := line t + 1, tokens := tokens t @ [newLineToken t], col := 2,
                 lastNewLine := True\<rparr>) rest"
  by (subst tokenize.simps) (simp add: scan_line_terminator armed_def)

lemma tokenize_last_line_feed:
  "tokenize t [CHR ''\<newline>''] =
     tokenize (t\<lparr>line := line t + 1, tokens := tokens t @ [newLineToken t], col := 1,
                 lastNewLine := True\<rparr>) []"
  by (subst tokenize.simps) (simp add: scan_line_terminator armed_def)

lemma tokenize_end:
  "tokenize t [] = Inr (t\<lparr>tokens := tokens t @
      [\<lparr>Line = line t, Col = col t, Type = TokenEOF, Value = zeroValue\<lparr>valid := True\<rparr>\<rparr>]\<rparr>, None)"
  by (subst tokenize.simps) (simp add: buildToken_def)

lemma line_feeds_tokens:
  "\<exists>t'. tokenize t (replicate k (CHR ''\<newline>'')) = Inr (t', None)
      \<and> newLines (tokens t') = newLines (tokens t) + (k + 1) div 2
      \<and> line t' = line t + int ((k + 1) div 2)"
proof (induction k arbitrary: t rule: less_induct)
  case (less k)
  consider "k = 0" | "k = 1" | j where "k = Suc (Suc j)"
    by (cases k; simp; rename_tac m; case_tac m; simp)
  then show ?case
  proof cases
    case 1
    then show ?thesis by (simp add: tokenize_end newLines_def)
  next
    case 2
    then show ?thesis
      by (simp add: tokenize_last_line_feed tokenize_end newLines_def newLineToken_def)
  next
    case 3
    let ?t1 = "t\<lparr>line := line t + 1, tokens := tokens t @ [newLineToken t], col := 2,
                 lastNewLine := True\<rparr>"
    from less[of j ?t1] 3 obtain t' where
      "tokenize ?t1 (replicate j (CHR ''\<newline>'')) = Inr (t', None)"
      "newLines (tokens t') = newLines (tokens ?t1) + (j + 1) div 2"
      "line t' = line ?t1 + int ((j + 1) div 2)"
      by auto
    with 3 show ?thesis
      by (auto simp: tokenize_two_line_feeds newLines_def newLineToken_def)
  qed
qed

text \<open>
  Claim C7. Every line terminator gives one \<open>NewLine\<close> token, so \<open>k\<close> line feeds in a row give
  \<open>k\<close> tokens. The code takes a line feed that follows a line feed as the second half of one
  terminator, as it does after a carriage return: two line feeds give one token and the line
  counter goes up by one (\<open>tokenize_two_line_feeds\<close>), \<open>k\<close> of them give \<open>(k + 1) div 2\<close>
  (\<open>line_feeds_tokens\<close>). Here the code is run on two line feeds.
\<close>

theorem two_line_feeds_one_token:
  "tokenize newTokenizer [CHR ''\<newline>'', CHR ''\<newline>''] =
     Inr (\<lparr>lastNewLine = True, line = 1, col = 2,
            tokens = [\<lparr>Line = 1, Col = 0, Type = TokenNewLine, Value = zeroValue\<lparr>valid := True\<rparr>\<rparr>,
                      \<lparr>Line = 1, Col = 2, Type = TokenEOF, Value = zeroValue\<lparr>valid := True\<rparr>\<rparr>]\<rparr>,
          None)"
  by code_simp

subsection \<open>Booleans\<close>

lemma scan_true:
  assumes "HasPrefix input ''true''"
  shows "scan t input = Chop (t\<lparr>tokens := tokens t @ [booleanToken t True]\<rparr>) 4"
proof -
  from assms obtain rest where "input = ''true'' @ rest"
    by (metis HasPrefix_def append_take_drop_id)
  then show ?thesis
    using assms by (simp add: scan_def built_def buildToken_def booleanToken_def is_digit_def)
qed

lemma scan_false:
  assumes "input \<noteq> []"
    and "input ! 0 \<notin> {CHR ''\<newline>'', CHR 0x0D, CHR ''#'', CHR '' '', CHR 0x22}"
    and "\<not> is_digit (input ! 0)"
    and "\<not> HasPrefix input ''true''"
    and "HasSuffix input ''false''"
  shows "scan t input = Chop (t\<lparr>tokens := tokens t @ [booleanToken t False]\<rparr>) 5"
  using assms by (simp add: scan_def built_def buildToken_def booleanToken_def)

text \<open>
  Claim C6. The rule for \<^verbatim>\<open>true\<close> asks whether the rest of the input starts with \<^verbatim>\<open>true\<close>, the
  rule for \<^verbatim>\<open>false\<close> whether the rest of the input ends with \<^verbatim>\<open>false\<close>. Where the earlier rules
  do not apply, the first gives \<open>Boolean(true)\<close> and drops 4 bytes, the second gives
  \<open>Boolean(false)\<close> and drops the first 5 bytes of the rest, whatever they are. Neither looks
  for a delimiter: \<^verbatim>\<open>truex\<close> is \<open>Boolean(true)\<close> and the string \<^verbatim>\<open>x\<close>, \<^verbatim>\<open>falsex\<close> is one string,
  \<^verbatim>\<open>xfalse\<close> is \<open>Boolean(false)\<close> and the string \<^verbatim>\<open>e\<close>, and \<^verbatim>\<open>false\<close> before a line feed is a
  string.
\<close>

theorem true_prefix_false_suffix:
  "(HasPrefix input ''true'' \<longrightarrow>
      tokenize t input =
        tokenize (t\<lparr>tokens := tokens t @ [booleanToken t True], col := col t + 4,
                    lastNewLine := False\<rparr>) (drop 4 input))
   \<and> (input \<noteq> []
        \<and> input ! 0 \<notin> {CHR ''\<newline>'', CHR 0x0D, CHR ''#'', CHR '' '', CHR 0x22}
        \<and> \<not> is_digit (input ! 0) \<and> \<not> HasPrefix input ''true'' \<and> HasSuffix input ''false'' \<longrightarrow>
      tokenize t input =
        tokenize (t\<lparr>tokens := tokens t @ [booleanToken t False], col := col t + 5,
                    lastNewLine := False\<rparr>) (drop 5 input))
   \<and> (case tokenize newTokenizer ''truex'' of
         Inr (t', None) \<Rightarrow>
           map (\<lambda>tk. (Type tk, vBool (Value tk), vString (Value tk))) (tokens t')
             = [(TokenBoolean, True, []), (TokenString, False, ''x''), (TokenEOF, False, [])]
       | _ \<Rightarrow> False)
   \<and> (case tokenize newTokenizer ''falsex'' of
         Inr (t', None) \<Rightarrow>
           map (\<lambda>tk. (Type tk, vBool (Value tk), vString (Value tk))) (tokens t')
             = [(TokenString, False, ''falsex''), (TokenEOF, False, [])]
       | _ \<Rightarrow> False)
   \<and> (case tokenize newTokenizer ''xfalse'' of
         Inr (t', None) \<Rightarrow>
           map (\<lambda>tk. (Type tk, vBool (Value tk), vString (Value tk))) (tokens t')
             = [(TokenBoolean, False, []), (TokenString, False, ''e''), (TokenEOF, False, [])]
       | _ \<Rightarrow> False)
   \<and> (case tokenize newTokenizer ''false\<newline>'' of
         Inr (t', None) \<Rightarrow>
           map (\<lambda>tk. (Type tk, vBool (Value tk), vString (Value tk))) (tokens t')
             = [(TokenString, False, ''false''), (TokenNewLine, False, []), (TokenEOF, False, [])]
       | _ \<Rightarrow> False)"
proof -
  have true: "tokenize t input =
        tokenize (t\<lparr>tokens := tokens t @ [booleanToken t True], col := col t + 4,
                    lastNewLine := False\<rparr>) (drop 4 input)"
    if p: "HasPrefix input ''true''"
  proof -
    from p obtain rest where input: "input = ''true'' @ rest"
      by (metis HasPrefix_def append_take_drop_id)
    have "armed input = Inr False"
      unfolding input by (simp add: armed_def)
    then show ?thesis
      by (subst tokenize.simps) (simp add: scan_true[OF p], simp add: input)
  qed
  have false: "tokenize t input =
        tokenize (t\<lparr>tokens := tokens t @ [booleanToken t False], col := col t + 5,
                    lastNewLine := False\<rparr>) (drop 5 input)"
    if ne: "input \<noteq> []"
      and c0: "input ! 0 \<notin> {CHR ''\<newline>'', CHR 0x0D, CHR ''#'', CHR '' '', CHR 0x22}"
      and nd: "\<not> is_digit (input ! 0)" and np: "\<not> HasPrefix input ''true''"
      and sf: "HasSuffix input ''false''"
  proof -
    from c0 have "armed input = Inr False"
      by (simp add: armed_def)
    moreover from sf have "5 \<le> length input"
      by (simp add: HasSuffix_def)
    ultimately show ?thesis
      using ne by (subst tokenize.simps) (simp add: scan_false[OF ne c0 nd np sf])
  qed
  have ex1: "(case tokenize newTokenizer ''truex'' of
         Inr (t', None) \<Rightarrow>
           map (\<lambda>tk. (Type tk, vBool (Value tk), vString (Value tk))) (tokens t')
             = [(TokenBoolean, True, []), (TokenString, False, ''x''), (TokenEOF, False, [])]
       | _ \<Rightarrow> False)"
    by code_simp
  have ex2: "(case tokenize newTokenizer ''falsex'' of
         Inr (t', None) \<Rightarrow>
           map (\<lambda>tk. (Type tk, vBool (Value tk), vString (Value tk))) (tokens t')
             = [(TokenString, False, ''falsex''), (TokenEOF, False, [])]
       | _ \<Rightarrow> False)"
    by code_simp
  have ex3: "(case tokenize newTokenizer ''xfalse'' of
         Inr (t', None) \<Rightarrow>
           map (\<lambda>tk. (Type tk, vBool (Value tk), vString (Value tk))) (tokens t')
             = [(TokenBoolean, False, []), (TokenString, False, ''e''), (TokenEOF, False, [])]
       | _ \<Rightarrow> False)"
    by code_simp
  have ex4: "(case tokenize newTokenizer ''false\<newline>'' of
         Inr (t', None) \<Rightarrow>
           map (\<lambda>tk. (Type tk, vBool (Value tk), vString (Value tk))) (tokens t')
             = [(TokenString, False, ''false''), (TokenNewLine, False, []), (TokenEOF, False, [])]
       | _ \<Rightarrow> False)"
    by code_simp
  from true false ex1 ex2 ex3 ex4 show ?thesis by blast
qed

theorem true_prefix_false_suffix_witness:
  "tokenize newTokenizer ''truex'' =
     tokenize (newTokenizer\<lparr>tokens := tokens newTokenizer @ [booleanToken newTokenizer True],
                 col := col newTokenizer + 4, lastNewLine := False\<rparr>) ''x''
   \<and> tokenize newTokenizer ''xfalse'' =
     tokenize (newTokenizer\<lparr>tokens := tokens newTokenizer @ [booleanToken newTokenizer False],
                 col := col newTokenizer + 5, lastNewLine := False\<rparr>) ''e''"
proof -
  have 1: "HasPrefix ''truex'' ''true''"
    by (simp add: HasPrefix_def)
  have 2: "''xfalse'' \<noteq> []
        \<and> ''xfalse'' ! 0 \<notin> {CHR ''\<newline>'', CHR 0x0D, CHR ''#'', CHR '' '', CHR 0x22}
        \<and> \<not> is_digit (''xfalse'' ! 0) \<and> \<not> HasPrefix ''xfalse'' ''true''
        \<and> HasSuffix ''xfalse'' ''false''"
    by (simp add: HasPrefix_def HasSuffix_def is_digit_def)
  from true_prefix_false_suffix[of "''truex''" newTokenizer] 1
  have a: "tokenize newTokenizer ''truex'' =
     tokenize (newTokenizer\<lparr>tokens := tokens newTokenizer @ [booleanToken newTokenizer True],
                 col := col newTokenizer + 4, lastNewLine := False\<rparr>) (drop 4 ''truex'')"
    by blast
  from true_prefix_false_suffix[of "''xfalse''" newTokenizer] 2
  have b: "tokenize newTokenizer ''xfalse'' =
     tokenize (newTokenizer\<lparr>tokens := tokens newTokenizer @ [booleanToken newTokenizer False],
                 col := col newTokenizer + 5, lastNewLine := False\<rparr>) (drop 5 ''xfalse'')"
    by blast
  from a b show ?thesis by simp
qed

section \<open>Properties of the parser\<close>

text \<open>
  One turn of the loop of \<^verbatim>\<open>parse\<close> up to the point where it assigns, descends, goes on,
  breaks or panics: the body of the loop without the map. \<open>parseLoop_unfold\<close> shows that the
  loop is this body, repeated.
\<close>

datatype action =
    Break Parser
  | Fail panic_value
  | Continue Parser
  | Put "TokenValue list" TokenValue Parser
  | Descend "TokenValue list" Parser

definition loopBody :: "int \<Rightarrow> Parser \<Rightarrow> action" where
  "loopBody indent p =
     (if Type (token p) = TokenNewLine then
        (case nextToken p of
           Inl e \<Rightarrow> Fail e
         | Inr p1 \<Rightarrow>
             if indent = 0 then Continue p1
             else if Type (token p1) \<noteq> TokenIndent then Break p1
             else if vInt (Value (token p1)) = indent then
               (case nextToken p1 of Inl e \<Rightarrow> Fail e | Inr p2 \<Rightarrow> Continue p2)
             else Break p1)
      else if Type (token p) = TokenIndent then
        (if vInt (Value (token p)) = indent then
           (case nextToken p of Inl e \<Rightarrow> Fail e | Inr p1 \<Rightarrow> Continue p1)
         else Break p)
      else if Type (token p) = TokenEOF then Break p
      else if Type (token p) = TokenString then
        (if IsEmpty (Value (token p)) then Fail (PanicString ''Expected a key'')
         else
           (case nextToken p of
              Inl e \<Rightarrow> Fail e
            | Inr p1 \<Rightarrow>
                (case collectKeys [Value (token p)] p1 of
                   Inl e \<Rightarrow> Fail e
                 | Inr (keys, p2) \<Rightarrow>
                     (case (if Type (token p2) = TokenColon then nextToken p2 else Inr p2) of
                        Inl e \<Rightarrow> Fail e
                      | Inr p3 \<Rightarrow>
                          if isValidPropValueToken (token p3) then
                            (case nextToken p3 of
                               Inl e \<Rightarrow> Fail e
                             | Inr p4 \<Rightarrow> Put keys (Value (token p3)) p4)
                          else if Type (token p2) = TokenColon then Descend keys p3
                          else Fail (unexpected p3 ''Invalid value type'')))))
      else Fail (unexpected p (''Unknown token: '' @ formatToken (token p))))"

lemma parseLoop_unfold:
  "parseLoop indent obj p =
     (case loopBody indent p of
        Break p' \<Rightarrow> Inr (obj, p')
      | Fail e \<Rightarrow> Inl e
      | Continue p' \<Rightarrow> parseLoop indent obj p'
      | Put keys v p' \<Rightarrow> parseLoop indent (assignAll keys (Scalar v) obj) p'
      | Descend keys p3 \<Rightarrow>
          (case parseLoop (indent + 1) [] p3 of
             Inl e \<Rightarrow> Inl e
           | Inr (val, p4) \<Rightarrow>
               if indent \<noteq> 0 \<and> Type (token p4) \<noteq> TokenIndent
               then Inr (assignAll keys (Mapping val) obj, p4)
               else parseLoop indent (assignAll keys (Mapping val) obj) p4))"
  by (subst parseLoop.simps)
    (simp add: loopBody_def Let_def split: sum.splits prod.splits)

lemma loopBody_remaining:
  "loopBody indent p = Continue p' \<Longrightarrow> remaining p' < remaining p"
  "loopBody indent p = Put keys v p' \<Longrightarrow> remaining p' < remaining p"
  "loopBody indent p = Descend keys p' \<Longrightarrow> remaining p' < remaining p"
  "loopBody indent p = Break p' \<Longrightarrow> remaining p' \<le> remaining p"
  by (auto simp: loopBody_def split: if_splits sum.splits prod.splits
      dest!: nextToken_remaining collectKeys_remaining)


lemma parseLoop_remaining:
  "parseLoop indent obj p = Inr (obj', p') \<Longrightarrow> remaining p' \<le> remaining p"
proof (induction "remaining p" arbitrary: indent obj p obj' p' rule: less_induct)
  case less
  note eq = less.prems[unfolded parseLoop_unfold[of indent obj p]]
  show ?case
  proof (cases "loopBody indent p")
    case (Break q)
    with eq loopBody_remaining(4)[OF Break] show ?thesis by simp
  next
    case (Fail e)
    with eq show ?thesis by simp
  next
    case (Continue q)
    with eq less.hyps[OF loopBody_remaining(1)[OF Continue]] loopBody_remaining(1)[OF Continue]
    show ?thesis by fastforce
  next
    case (Put keys v q)
    with eq less.hyps[OF loopBody_remaining(2)[OF Put]] loopBody_remaining(2)[OF Put]
    show ?thesis by fastforce
  next
    case (Descend keys q)
    note r3 = loopBody_remaining(3)[OF Descend]
    from eq Descend obtain val p4 where inner: "parseLoop (indent + 1) [] q = Inr (val, p4)"
      by (auto split: sum.splits)
    from less.hyps[OF r3 inner] have r4: "remaining p4 \<le> remaining q" .
    show ?thesis
    proof (cases "indent \<noteq> 0 \<and> Type (token p4) \<noteq> TokenIndent")
      case True
      with eq Descend inner have "p' = p4" by simp
      with r3 r4 show ?thesis by simp
    next
      case False
      with eq Descend inner
      have "parseLoop indent (assignAll keys (Mapping val) obj) p4 = Inr (obj', p')"
        by simp
      from less.hyps[OF _ this] r3 r4 show ?thesis by simp
    qed
  qed
qed

lemma map_of_assignAll:
  "map_of (assignAll keys v obj) = map_of obj ++ map_of (assignAll keys v [])"
proof -
  have a: "map_of (fold (\<lambda>key. AList.update key v) keys al)
      = fold (\<lambda>key m. m(key \<mapsto> v)) keys (map_of al)" for al :: object
    by (induction keys arbitrary: al) (simp_all add: update_conv')
  have b: "fold (\<lambda>key m. m(key \<mapsto> v)) keys (m1 ++ m2)
      = m1 ++ fold (\<lambda>key m. m(key \<mapsto> v)) keys m2" for m1 m2 :: "TokenValue \<rightharpoonup> node"
    by (induction keys arbitrary: m2) (simp_all del: map_add_upd add: map_add_upd[symmetric])
  have "map_of (assignAll keys v obj) = fold (\<lambda>key m. m(key \<mapsto> v)) keys (map_of obj ++ Map.empty)"
    unfolding assignAll_def a by simp
  also have "\<dots> = map_of obj ++ fold (\<lambda>key m. m(key \<mapsto> v)) keys Map.empty"
    by (rule b)
  also have "\<dots> = map_of obj ++ map_of (assignAll keys v [])"
    unfolding assignAll_def a by simp
  finally show ?thesis .
qed

lemma map_of_assignAll_key:
  "k \<in> set keys \<Longrightarrow> map_of (assignAll keys v obj) k = Some v"
proof -
  have "k \<in> set keys \<or> map_of al k = Some v \<Longrightarrow>
        map_of (fold (\<lambda>key. AList.update key v) keys al) k = Some v" for al :: object
    by (induction keys arbitrary: al) (auto simp: update_conv')
  then show "k \<in> set keys \<Longrightarrow> ?thesis"
    unfolding assignAll_def by blast
qed

lemma distinct_assignAll:
  "distinct (map fst obj) \<Longrightarrow> distinct (map fst (assignAll keys v obj))"
  unfolding assignAll_def
  by (induction keys arbitrary: obj) (simp_all add: distinct_update)

text \<open>How the result of the loop on any map follows from its result on the empty map.\<close>

definition follows :: "object \<Rightarrow> panic_value + object \<times> Parser \<Rightarrow> panic_value + object \<times> Parser \<Rightarrow> bool" where
  "follows obj r r0 =
     (case r0 of
        Inl e \<Rightarrow> r = Inl e
      | Inr (b, p') \<Rightarrow> (\<exists>obj'. r = Inr (obj', p') \<and> map_of obj' = map_of obj ++ map_of b))"

lemma follows_step:
  assumes "follows X r rr" and "follows X0 r0 rr" and "map_of X = map_of obj ++ map_of X0"
  shows "follows obj r r0"
  using assms unfolding follows_def
  by (auto split: sum.splits prod.splits simp: map_add_assoc)

lemma follows_empty: "follows [] r r"
  unfolding follows_def by (auto split: sum.splits)

lemma parseLoop_follows:
  "follows obj (parseLoop indent obj p) (parseLoop indent [] p)"
proof (induction "remaining p" arbitrary: indent obj p rule: less_induct)
  case less
  show ?case
  proof (cases "loopBody indent p")
    case (Break q)
    then show ?thesis
      by (simp add: parseLoop_unfold[of indent _ p] follows_def)
  next
    case (Fail e)
    then show ?thesis
      by (simp add: parseLoop_unfold[of indent _ p] follows_def)
  next
    case (Continue q)
    with less.hyps[OF loopBody_remaining(1)[OF Continue]] show ?thesis
      by (simp add: parseLoop_unfold[of indent _ p])
  next
    case (Put keys v q)
    note ih = less.hyps[OF loopBody_remaining(2)[OF Put]]
    have "follows obj (parseLoop indent (assignAll keys (Scalar v) obj) q)
            (parseLoop indent (assignAll keys (Scalar v) []) q)"
      by (rule follows_step[OF ih ih map_of_assignAll])
    with Put show ?thesis
      by (simp add: parseLoop_unfold[of indent _ p])
  next
    case (Descend keys q)
    note r3 = loopBody_remaining(3)[OF Descend]
    show ?thesis
    proof (cases "parseLoop (indent + 1) [] q")
      case (Inl e)
      with Descend show ?thesis
        by (simp add: parseLoop_unfold[of indent _ p] follows_def)
    next
      case (Inr r)
      obtain val p4 where r: "r = (val, p4)" by (cases r)
      from parseLoop_remaining[OF Inr[unfolded r]] r3 have r4: "remaining p4 < remaining p"
        by simp
      show ?thesis
      proof (cases "indent \<noteq> 0 \<and> Type (token p4) \<noteq> TokenIndent")
        case True
        with Descend Inr r show ?thesis
          by (simp add: parseLoop_unfold[of indent _ p] follows_def map_of_assignAll[symmetric])
      next
        case False
        note ih = less.hyps[OF r4]
        have "follows obj (parseLoop indent (assignAll keys (Mapping val) obj) p4)
            (parseLoop indent (assignAll keys (Mapping val) []) p4)"
          by (rule follows_step[OF ih ih map_of_assignAll])
        moreover from False
        have "(indent \<noteq> 0 \<and> Type (token p4) \<noteq> TokenIndent) = False" by simp
        ultimately show ?thesis
          using Descend Inr r by (simp only: parseLoop_unfold[of indent _ p] action.case sum.case prod.case if_False)
      qed
    qed
  qed
qed

lemma parseLoop_distinct:
  "parseLoop indent obj p = Inr (obj', p') \<Longrightarrow> distinct (map fst obj) \<Longrightarrow> distinct (map fst obj')"
proof (induction "remaining p" arbitrary: indent obj p obj' p' rule: less_induct)
  case less
  note eq = less.prems(1)[unfolded parseLoop_unfold[of indent obj p]]
  show ?case
  proof (cases "loopBody indent p")
    case (Break q)
    with eq less.prems(2) show ?thesis by simp
  next
    case (Fail e)
    with eq show ?thesis by simp
  next
    case (Continue q)
    with eq less.hyps[OF loopBody_remaining(1)[OF Continue] _ less.prems(2)]
    show ?thesis by simp
  next
    case (Put keys v q)
    with eq less.hyps[OF loopBody_remaining(2)[OF Put] _ distinct_assignAll[OF less.prems(2)]]
    show ?thesis by simp
  next
    case (Descend keys q)
    note r3 = loopBody_remaining(3)[OF Descend]
    from eq Descend obtain val p4 where inner: "parseLoop (indent + 1) [] q = Inr (val, p4)"
      by (auto split: sum.splits)
    from parseLoop_remaining[OF inner] r3 have r4: "remaining p4 < remaining p" by simp
    show ?thesis
    proof (cases "indent \<noteq> 0 \<and> Type (token p4) \<noteq> TokenIndent")
      case True
      with eq Descend inner distinct_assignAll[OF less.prems(2)] show ?thesis by auto
    next
      case False
      with eq Descend inner
      have "parseLoop indent (assignAll keys (Mapping val) obj) p4 = Inr (obj', p')"
        by simp
      from less.hyps[OF r4 this distinct_assignAll[OF less.prems(2)]] show ?thesis .
    qed
  qed
qed

text \<open>
  For the examples: the tokens of an input, and the parser as \<^verbatim>\<open>ParseLockFileData\<close> has it
  when it calls \<^verbatim>\<open>parse(0)\<close>, after the first \<^verbatim>\<open>next\<close>.
\<close>

definition tokensOf :: "string \<Rightarrow> Token list" where
  "tokensOf input = (case tokenize newTokenizer input of Inr (t, None) \<Rightarrow> tokens t | _ \<Rightarrow> [])"

definition primed :: "string \<Rightarrow> Parser" where
  "primed input =
     (case nextToken (newParser (tokensOf input)) of Inr p \<Rightarrow> p | Inl e \<Rightarrow> newParser [])"

subsection \<open>Lists of keys\<close>

text \<open>
  The tokens the cursor of a parser has still to deliver: the tokens from \<open>tokenPtr\<close> on that
  are no comments.
\<close>

definition ahead :: "Parser \<Rightarrow> Token list" where
  "ahead p = filter (\<lambda>tk. Type tk \<noteq> TokenComment) (drop (tokenPtr p) (ptokens p))"

text \<open>
  The keys of a list after its first one, in the words of the specification
  (``collect one or more comma-separated keys''): as long as the current token is a comma,
  the value of the token behind it is a key and the token behind that one is looked at
  next. \<open>collectKeys_exact\<close> compares the loop of the source with it.
\<close>

fun keysAfter :: "Token \<Rightarrow> Token list \<Rightarrow> TokenValue list" where
  "keysAfter cur (s # x # rest) =
     (if Type cur = TokenComma then Value s # keysAfter x rest else [])"
| "keysAfter cur rest = []"

lemma parse_follows:
  assumes "parseLoop indent obj p = Inr (obj', p')"
  shows "\<exists>b. parse indent p = Inr (b, p') \<and> map_of obj' = map_of obj ++ map_of b"
  using parseLoop_follows[of obj indent p] assms
  unfolding follows_def parse_def by (auto split: sum.splits)

lemma onComment_tokens: "onComment p tk = Inr p' \<Longrightarrow> ptokens p' = ptokens p"
  by (rule conjunct2[OF onComment_cursor])

lemma nextToken_token:
  "nextToken p = Inr p' \<Longrightarrow> ptokens p' = ptokens p \<and> token p' \<in> set (ptokens p)"
proof (induction p arbitrary: p' rule: nextToken.induct)
  case (1 p)
  let ?tk = "ptokens p ! tokenPtr p"
  let ?p1 = "p\<lparr>tokenPtr := tokenPtr p + 1\<rparr>"
  from "1.prems" have inside: "\<not> tokenPtr p \<ge> length (ptokens p)"
    by (subst (asm) nextToken.simps) (simp split: if_splits)
  show ?case
  proof (cases "Type ?tk = TokenComment")
    case False
    with inside "1.prems" have "p' = ?p1\<lparr>token := ?tk\<rparr>"
      by (subst (asm) nextToken.simps) (simp add: Let_def)
    with inside show ?thesis by simp
  next
    case True
    with inside "1.prems"
    obtain p2 where oc: "onComment ?p1 ?tk = Inr p2" and nx: "nextToken p2 = Inr p'"
      by (subst (asm) nextToken.simps) (simp add: Let_def split: sum.splits)
    from "1.IH"[OF inside refl refl True oc nx] onComment_tokens[OF oc]
    show ?thesis by simp
  qed
qed

lemma collectKeys_strings:
  "collectKeys ks p = Inr (ks', p') \<Longrightarrow>
   ptokens p' = ptokens p \<and>
   (\<exists>more. ks' = ks @ more
      \<and> (\<forall>k \<in> set more. \<exists>tk \<in> set (ptokens p). Type tk = TokenString \<and> Value tk = k))"
proof (induction ks p arbitrary: ks' p' rule: collectKeys.induct)
  case (1 ks p)
  show ?case
  proof (cases "Type (token p) = TokenComma")
    case False
    with "1.prems" show ?thesis
      by (subst (asm) collectKeys.simps) simp
  next
    case True
    with "1.prems" obtain p1 p2 where n1: "nextToken p = Inr p1"
      and str: "\<not> Type (token p1) \<noteq> TokenString" and ne: "\<not> IsEmpty (Value (token p1))"
      and n2: "nextToken p1 = Inr p2"
      and rec: "collectKeys (ks @ [Value (token p1)]) p2 = Inr (ks', p')"
      by (subst (asm) collectKeys.simps) (simp split: sum.splits if_splits)
    from "1.IH"[OF True n1 str ne n2 rec] obtain more where
      pt: "ptokens p' = ptokens p2" and ks': "ks' = (ks @ [Value (token p1)]) @ more"
      and all: "\<forall>k \<in> set more. \<exists>tk \<in> set (ptokens p2). Type tk = TokenString \<and> Value tk = k"
      by blast
    from nextToken_token[OF n1] nextToken_token[OF n2]
    have same: "ptokens p2 = ptokens p" and mem: "token p1 \<in> set (ptokens p)" by simp_all
    from str mem have "\<exists>tk \<in> set (ptokens p). Type tk = TokenString \<and> Value tk = Value (token p1)"
      by blast
    with all same have "\<forall>k \<in> set (Value (token p1) # more).
        \<exists>tk \<in> set (ptokens p). Type tk = TokenString \<and> Value tk = k"
      by simp
    moreover from ks' have "ks' = ks @ (Value (token p1) # more)" by simp
    ultimately show ?thesis using pt same by metis
  qed
qed

lemma collectKeys_not_string:
  assumes "Type (token p) = TokenComma" "nextToken p = Inr p1" "Type (token p1) \<noteq> TokenString"
  shows "collectKeys ks p = Inl (PanicString (''Expected string'' @ Itoa (Line (token p1)) @ '':''
            @ Itoa (Col (token p1)) @ '' in '' @ fileLoc p1))"
  using assms by (subst collectKeys.simps) (simp add: unexpected_def)

lemma loopBody_scalar:
  assumes "Type (token p) = TokenString" "\<not> IsEmpty (Value (token p))" "nextToken p = Inr p1"
    "collectKeys [Value (token p)] p1 = Inr (keys, p2)"
    "(if Type (token p2) = TokenColon then nextToken p2 else Inr p2) = Inr p3"
    "isValidPropValueToken (token p3)" "nextToken p3 = Inr p4"
  shows "loopBody indent p = Put keys (Value (token p3)) p4"
  using assms by (simp add: loopBody_def)

lemma loopBody_keys_fail:
  assumes "Type (token p) = TokenString" "\<not> IsEmpty (Value (token p))" "nextToken p = Inr p1"
    "collectKeys [Value (token p)] p1 = Inl e"
  shows "loopBody indent p = Fail e"
  using assms by (simp add: loopBody_def)

lemma keysAfter_no_comma: "Type cur \<noteq> TokenComma \<Longrightarrow> keysAfter cur rest = []"
  by (induction cur rest rule: keysAfter.induct) auto

lemma nextToken_ahead: "nextToken p = Inr p' \<Longrightarrow> ahead p = token p' # ahead p'"
proof (induction p arbitrary: p' rule: nextToken.induct)
  case (1 p)
  let ?tk = "ptokens p ! tokenPtr p"
  let ?p1 = "p\<lparr>tokenPtr := tokenPtr p + 1\<rparr>"
  from "1.prems" have inside: "\<not> tokenPtr p \<ge> length (ptokens p)"
    by (subst (asm) nextToken.simps) (simp split: if_splits)
  then have drop: "drop (tokenPtr p) (ptokens p) = ?tk # drop (tokenPtr p + 1) (ptokens p)"
    by (simp add: Cons_nth_drop_Suc)
  show ?case
  proof (cases "Type ?tk = TokenComment")
    case False
    with inside "1.prems" have "p' = ?p1\<lparr>token := ?tk\<rparr>"
      by (subst (asm) nextToken.simps) (simp add: Let_def)
    with False drop show ?thesis by (simp add: ahead_def)
  next
    case True
    with inside "1.prems"
    obtain p2 where oc: "onComment ?p1 ?tk = Inr p2" and nx: "nextToken p2 = Inr p'"
      by (subst (asm) nextToken.simps) (simp add: Let_def split: sum.splits)
    from onComment_cursor[OF oc] have "ahead p2 = ahead ?p1"
      by (simp add: ahead_def)
    with "1.IH"[OF inside refl refl True oc nx] True drop show ?thesis
      by (simp add: ahead_def)
  qed
qed

lemma collectKeys_exact:
  "collectKeys ks p = Inr (ks', p') \<Longrightarrow>
   ks' = ks @ keysAfter (token p) (ahead p) \<and> Type (token p') \<noteq> TokenComma"
proof (induction ks p arbitrary: ks' p' rule: collectKeys.induct)
  case (1 ks p)
  show ?case
  proof (cases "Type (token p) = TokenComma")
    case False
    with "1.prems" have "ks' = ks" "p' = p"
      by (subst (asm) collectKeys.simps, simp)+
    with False show ?thesis
      by (simp add: keysAfter_no_comma)
  next
    case True
    with "1.prems" obtain p1 p2 where n1: "nextToken p = Inr p1"
      and str: "\<not> Type (token p1) \<noteq> TokenString" and ne: "\<not> IsEmpty (Value (token p1))"
      and n2: "nextToken p1 = Inr p2"
      and rec: "collectKeys (ks @ [Value (token p1)]) p2 = Inr (ks', p')"
      by (subst (asm) collectKeys.simps) (simp split: sum.splits if_splits)
    from nextToken_ahead[OF n1] nextToken_ahead[OF n2]
    have "ahead p = token p1 # token p2 # ahead p2" by simp
    with True have "keysAfter (token p) (ahead p) = Value (token p1) # keysAfter (token p2) (ahead p2)"
      by simp
    with "1.IH"[OF True n1 str ne n2 rec] show ?thesis by simp
  qed
qed

text \<open>
  Claim C5. After a \<open>String\<close> key, every comma must be followed by another \<open>String\<close> token:
  with any other token there the parser panics with \<^verbatim>\<open>Expected string\<close>, followed by the
  position of that token, and the panic is the result of \<^verbatim>\<open>parse\<close>. The keys collected are the
  first key and, in their order, the values of the tokens behind the commas, all of them
  \<open>String\<close> tokens. When a \<open>Boolean\<close>, \<open>String\<close> or \<open>Number\<close> token follows the keys, after the
  colon if there is one, the mapping that \<^verbatim>\<open>parse\<close> returns is the map that binds every key of
  the list to the value of that token, overridden by what the rest of the level binds: each
  key of the list has that scalar, unless a later line of the level binds the key again.
\<close>

theorem keys_are_strings_and_share_the_scalar:
  "(Type (token p) = TokenComma \<and> nextToken p = Inr p1 \<and> Type (token p1) \<noteq> TokenString \<longrightarrow>
      collectKeys ks p = Inl (PanicString (''Expected string'' @ Itoa (Line (token p1)) @ '':''
            @ Itoa (Col (token p1)) @ '' in '' @ fileLoc p1)))
   \<and> (collectKeys ks p = Inr (ks', p') \<longrightarrow>
        ks' = ks @ keysAfter (token p) (ahead p) \<and> Type (token p') \<noteq> TokenComma
        \<and> (\<forall>k \<in> set (keysAfter (token p) (ahead p)).
              \<exists>tk \<in> set (ptokens p). Type tk = TokenString \<and> Value tk = k))
   \<and> (Type (token p) = TokenString \<and> \<not> IsEmpty (Value (token p)) \<and> nextToken p = Inr p1
        \<and> collectKeys [Value (token p)] p1 = Inl e \<longrightarrow>
        parse indent p = Inl e)
   \<and> (Type (token p) = TokenString \<and> \<not> IsEmpty (Value (token p)) \<and> nextToken p = Inr p1
        \<and> collectKeys [Value (token p)] p1 = Inr (keys, p2)
        \<and> (if Type (token p2) = TokenColon then nextToken p2 else Inr p2) = Inr p3
        \<and> isValidPropValueToken (token p3) \<and> nextToken p3 = Inr p4
        \<and> parse indent p = Inr (obj', p') \<longrightarrow>
        keys = Value (token p) # keysAfter (token p1) (ahead p1)
        \<and> (\<exists>b. parse indent p4 = Inr (b, p')
              \<and> map_of obj' = map_of (assignAll keys (Scalar (Value (token p3))) []) ++ map_of b
              \<and> (\<forall>k \<in> set keys.
                    map_of obj' k
                      = (case map_of b k of
                           Some w \<Rightarrow> Some w
                         | None \<Rightarrow> Some (Scalar (Value (token p3)))))))
   \<and> ParseLockFileData ''a, 1'' = (None, Some (ParseErr ''Expected string0:3 in ''))
   \<and> ParseLockFileData ''x:\<newline>  version, resolved, uid: \"1.0\"\<newline>''
        = (Some [(''x'', zeroEntry\<lparr>Version := ''1.0'', UID := ''1.0'', Resolved := ''1.0''\<rparr>)], None)
   \<and> (case parse 0 (primed ''a, b: true'') of
         Inr (obj, p') \<Rightarrow>
           map (\<lambda>(k, n). (MarshalText k, json_Marshal n)) obj
             = [(''a'', JString ''true''), (''b'', JString ''true'')]
       | Inl e \<Rightarrow> False)"
proof (intro conjI impI)
  assume "Type (token p) = TokenComma \<and> nextToken p = Inr p1 \<and> Type (token p1) \<noteq> TokenString"
  then show "collectKeys ks p = Inl (PanicString (''Expected string'' @ Itoa (Line (token p1)) @ '':''
            @ Itoa (Col (token p1)) @ '' in '' @ fileLoc p1))"
    by (simp add: collectKeys_not_string)
next
  assume a: "collectKeys ks p = Inr (ks', p')"
  from collectKeys_exact[OF a] show "ks' = ks @ keysAfter (token p) (ahead p)"
    and "Type (token p') \<noteq> TokenComma"
    by simp_all
  from collectKeys_strings[OF a] collectKeys_exact[OF a]
  show "\<forall>k \<in> set (keysAfter (token p) (ahead p)).
              \<exists>tk \<in> set (ptokens p). Type tk = TokenString \<and> Value tk = k"
    by auto
next
  assume "Type (token p) = TokenString \<and> \<not> IsEmpty (Value (token p)) \<and> nextToken p = Inr p1
        \<and> collectKeys [Value (token p)] p1 = Inl e"
  then have "loopBody indent p = Fail e"
    by (simp add: loopBody_keys_fail)
  then show "parse indent p = Inl e"
    by (simp add: parse_def parseLoop_unfold[of indent "[]" p])
next
  assume a: "Type (token p) = TokenString \<and> \<not> IsEmpty (Value (token p)) \<and> nextToken p = Inr p1
        \<and> collectKeys [Value (token p)] p1 = Inr (keys, p2)
        \<and> (if Type (token p2) = TokenColon then nextToken p2 else Inr p2) = Inr p3
        \<and> isValidPropValueToken (token p3) \<and> nextToken p3 = Inr p4
        \<and> parse indent p = Inr (obj', p')"
  then have ck: "collectKeys [Value (token p)] p1 = Inr (keys, p2)"
    and res: "parseLoop indent [] p = Inr (obj', p')"
    by (simp_all add: parse_def)
  from collectKeys_exact[OF ck] show "keys = Value (token p) # keysAfter (token p1) (ahead p1)"
    by simp
  from a have body: "loopBody indent p = Put keys (Value (token p3)) p4"
    by (simp add: loopBody_scalar)
  from res body
  have "parseLoop indent (assignAll keys (Scalar (Value (token p3))) []) p4 = Inr (obj', p')"
    by (simp add: parseLoop_unfold[of indent "[]" p])
  from parse_follows[OF this] obtain b where b: "parse indent p4 = Inr (b, p')"
    and m: "map_of obj' = map_of (assignAll keys (Scalar (Value (token p3))) []) ++ map_of b"
    by blast
  have "\<forall>k \<in> set keys.
      map_of obj' k = (case map_of b k of Some w \<Rightarrow> Some w | None \<Rightarrow> Some (Scalar (Value (token p3))))"
    using m map_of_assignAll_key[of _ keys "Scalar (Value (token p3))" "[]"]
    by (simp add: map_add_def split: option.splits)
  with b m show "\<exists>b. parse indent p4 = Inr (b, p')
              \<and> map_of obj' = map_of (assignAll keys (Scalar (Value (token p3))) []) ++ map_of b
              \<and> (\<forall>k \<in> set keys.
                    map_of obj' k
                      = (case map_of b k of
                           Some w \<Rightarrow> Some w
                         | None \<Rightarrow> Some (Scalar (Value (token p3)))))"
    by blast
next
  show "ParseLockFileData ''a, 1'' = (None, Some (ParseErr ''Expected string0:3 in ''))"
    by code_simp
next
  show "ParseLockFileData ''x:\<newline>  version, resolved, uid: \"1.0\"\<newline>''
        = (Some [(''x'', zeroEntry\<lparr>Version := ''1.0'', UID := ''1.0'', Resolved := ''1.0''\<rparr>)], None)"
    by code_simp
next
  show "(case parse 0 (primed ''a, b: true'') of
         Inr (obj, p') \<Rightarrow>
           map (\<lambda>(k, n). (MarshalText k, json_Marshal n)) obj
             = [(''a'', JString ''true''), (''b'', JString ''true'')]
       | Inl e \<Rightarrow> False)"
    by code_simp
qed

theorem keys_are_strings_and_share_the_scalar_witness:
  "collectKeys [] (projr (nextToken (primed ''a, 1''))) = Inl (PanicString ''Expected string0:3 in '')
   \<and> fst (projr (collectKeys [Value (tokensOf ''a, b 1'' ! 0)]
                    (projr (nextToken (primed ''a, b 1'')))))
       = [Value (tokensOf ''a, b 1'' ! 0), Value (tokensOf ''a, b 1'' ! 2)]
   \<and> (\<exists>b. parse 0 (projr (nextToken (projr (nextToken (projr (nextToken
                 (projr (nextToken (primed ''a, b 1''))))))))) 
             = Inr (b, snd (projr (parse 0 (primed ''a, b 1''))))
          \<and> map_of (fst (projr (parse 0 (primed ''a, b 1''))))
              = map_of (assignAll [Value (tokensOf ''a, b 1'' ! 0), Value (tokensOf ''a, b 1'' ! 2)]
                          (Scalar (Value (tokensOf ''a, b 1'' ! 3))) []) ++ map_of b)
   \<and> map_of (fst (projr (parse 0 (primed ''a, b 1'')))) (Value (tokensOf ''a, b 1'' ! 2))
       = Some (Scalar (Value (tokensOf ''a, b 1'' ! 3)))"
proof -
  let ?A = "projr (nextToken (primed ''a, 1''))"
  let ?A1 = "projr (nextToken ?A)"
  have a1: "Type (token ?A) = TokenComma" by code_simp
  have a2: "nextToken ?A = Inr ?A1" by code_simp
  have a3: "Type (token ?A1) \<noteq> TokenString" by code_simp
  have a4: "''Expected string'' @ Itoa (Line (token ?A1)) @ '':'' @ Itoa (Col (token ?A1))
      @ '' in '' @ fileLoc ?A1 = ''Expected string0:3 in ''" by code_simp
  from keys_are_strings_and_share_the_scalar[where p = "?A" and ?p1.0 = "?A1" and ks = "[]"] a1 a2 a3
  have A: "collectKeys [] ?A = Inl (PanicString (''Expected string'' @ Itoa (Line (token ?A1)) @ '':''
            @ Itoa (Col (token ?A1)) @ '' in '' @ fileLoc ?A1))"
    by blast
  let ?P = "primed ''a, b 1''"
  let ?P1 = "projr (nextToken ?P)"
  let ?K = "[Value (tokensOf ''a, b 1'' ! 0), Value (tokensOf ''a, b 1'' ! 2)]"
  let ?V = "Value (tokensOf ''a, b 1'' ! 3)"
  let ?P2 = "projr (nextToken (projr (nextToken ?P1)))"
  let ?P4 = "projr (nextToken ?P2)"
  let ?R = "projr (parse 0 ?P)"
  have b1: "Type (token ?P) = TokenString" by code_simp
  have b2: "\<not> IsEmpty (Value (token ?P))" by code_simp
  have b3: "nextToken ?P = Inr ?P1" by code_simp
  have b4: "collectKeys [Value (token ?P)] ?P1 = Inr (?K, ?P2)" by code_simp
  have b5: "(if Type (token ?P2) = TokenColon then nextToken ?P2 else Inr ?P2) = Inr ?P2" by code_simp
  have b6: "isValidPropValueToken (token ?P2)" by code_simp
  have b7: "nextToken ?P2 = Inr ?P4" by code_simp
  have b8: "Value (token ?P2) = ?V" by code_simp
  have b9: "parse 0 ?P = Inr (fst ?R, snd ?R)" by code_simp
  have b10: "Value (token ?P) = Value (tokensOf ''a, b 1'' ! 0)" by code_simp
  from keys_are_strings_and_share_the_scalar[where p = "?P" and ?p1.0 = "?P1" and keys = "?K"
      and ?p2.0 = "?P2" and ?p3.0 = "?P2" and ?p4.0 = "?P4" and indent = 0
      and obj' = "fst ?R" and p' = "snd ?R"]
    b1 b2 b3 b4 b5 b6 b7 b9
  have B: "\<exists>b. parse 0 ?P4 = Inr (b, snd ?R)
          \<and> map_of (fst ?R) = map_of (assignAll ?K (Scalar (Value (token ?P2))) []) ++ map_of b
          \<and> (\<forall>k \<in> set ?K.
                map_of (fst ?R) k
                  = (case map_of b k of Some w \<Rightarrow> Some w | None \<Rightarrow> Some (Scalar (Value (token ?P2)))))"
    by blast
  have C: "fst (projr (collectKeys [Value (tokensOf ''a, b 1'' ! 0)] ?P1)) = ?K"
    using b4 unfolding b10 by simp
  have D: "map_of (fst ?R) (Value (tokensOf ''a, b 1'' ! 2)) = Some (Scalar ?V)"
    by code_simp
  from A B C D show ?thesis
    unfolding a4 b8 by blast
qed

subsection \<open>Keys that occur again\<close>

text \<open>
  Claim C8. When a key occurs again at the same level of one parse, the value bound last
  replaces the earlier ones and the key has one binding. In the loop of \<^verbatim>\<open>parse\<close>: a map with
  one pair for each key keeps that shape, and the map at the end is the map at the start
  overridden by what \<^verbatim>\<open>parse\<close> makes of the rest of the level, whatever the start bound. A line
  that binds its keys to a scalar, and a line that binds them to a nested block, replace
  what the keys were bound to before; the rest of the level is applied on top of that. Where
  the loop ends right after a nested block, the block is still assigned. In a file, the
  second \<^verbatim>\<open>version\<close> line of an entry is the one that counts, the second block of a key
  replaces the whole first block, at the top level and inside an entry, and a scalar and a
  block of the same key replace each other.
\<close>

theorem last_write_wins:
  "(parseLoop indent obj p = Inr (obj', p') \<and> distinct (map fst obj) \<longrightarrow>
      distinct (map fst obj')
      \<and> (\<exists>b. parse indent p = Inr (b, p') \<and> map_of obj' = map_of obj ++ map_of b))
   \<and> (loopBody indent p = Put keys v q \<and> parseLoop indent obj p = Inr (obj', p') \<longrightarrow>
        (\<exists>b. parse indent q = Inr (b, p')
           \<and> map_of obj' = map_of (assignAll keys (Scalar v) obj) ++ map_of b
           \<and> (\<forall>k \<in> set keys.
                 map_of obj' k = (case map_of b k of Some w \<Rightarrow> Some w | None \<Rightarrow> Some (Scalar v)))))
   \<and> (loopBody indent p = Descend keys q \<and> parse (indent + 1) q = Inr (val, p4)
        \<and> parseLoop indent obj p = Inr (obj', p') \<longrightarrow>
        (if indent \<noteq> 0 \<and> Type (token p4) \<noteq> TokenIndent
         then p' = p4 \<and> obj' = assignAll keys (Mapping val) obj
              \<and> (\<forall>k \<in> set keys. map_of obj' k = Some (Mapping val))
         else (\<exists>b. parse indent p4 = Inr (b, p')
                 \<and> map_of obj' = map_of (assignAll keys (Mapping val) obj) ++ map_of b
                 \<and> (\<forall>k \<in> set keys.
                       map_of obj' k
                         = (case map_of b k of Some w \<Rightarrow> Some w | None \<Rightarrow> Some (Mapping val))))))
   \<and> ParseLockFileData ''x:\<newline>  version 1\<newline>  version 2\<newline>''
        = (Some [(''x'', zeroEntry\<lparr>Version := ''2''\<rparr>)], None)
   \<and> ParseLockFileData ''x:\<newline>  version 1\<newline>x:\<newline>  resolved 2\<newline>''
        = (Some [(''x'', zeroEntry\<lparr>Resolved := ''2''\<rparr>)], None)
   \<and> ParseLockFileData
        ''a:\<newline>  dependencies:\<newline>    a 1\<newline>  dependencies:\<newline>    b 2\<newline>''
        = (Some [(''a'', zeroEntry\<lparr>Dependencies := [(''b'', ''2'')]\<rparr>)], None)
   \<and> ParseLockFileData
        ''a:\<newline>  dependencies:\<newline>    a 1\<newline>  dependencies:\<newline>    b 2\<newline>  version 3\<newline>''
        = (Some [(''a'', zeroEntry\<lparr>Version := ''3'', Dependencies := [(''b'', ''2'')]\<rparr>)], None)
   \<and> ParseLockFileData ''a:\<newline>  version:\<newline>    b 2\<newline>  version 3\<newline>''
        = (Some [(''a'', zeroEntry\<lparr>Version := ''3''\<rparr>)], None)"
proof (intro conjI impI)
  assume a: "parseLoop indent obj p = Inr (obj', p') \<and> distinct (map fst obj)"
  then show "distinct (map fst obj')"
    using parseLoop_distinct by blast
  from a show "\<exists>b. parse indent p = Inr (b, p') \<and> map_of obj' = map_of obj ++ map_of b"
    using parse_follows by blast
next
  assume a: "loopBody indent p = Put keys v q \<and> parseLoop indent obj p = Inr (obj', p')"
  then have body: "loopBody indent p = Put keys v q"
    and res: "parseLoop indent obj p = Inr (obj', p')"
    by simp_all
  from res body have "parseLoop indent (assignAll keys (Scalar v) obj) q = Inr (obj', p')"
    by (simp add: parseLoop_unfold[of indent obj p])
  from parse_follows[OF this] obtain b where b: "parse indent q = Inr (b, p')"
    and m: "map_of obj' = map_of (assignAll keys (Scalar v) obj) ++ map_of b"
    by blast
  have "\<forall>k \<in> set keys.
      map_of obj' k = (case map_of b k of Some w \<Rightarrow> Some w | None \<Rightarrow> Some (Scalar v))"
    using m map_of_assignAll_key[of _ keys "Scalar v" obj]
    by (simp add: map_add_def split: option.splits)
  with b m show "\<exists>b. parse indent q = Inr (b, p')
           \<and> map_of obj' = map_of (assignAll keys (Scalar v) obj) ++ map_of b
           \<and> (\<forall>k \<in> set keys.
                 map_of obj' k = (case map_of b k of Some w \<Rightarrow> Some w | None \<Rightarrow> Some (Scalar v)))"
    by blast
next
  assume a: "loopBody indent p = Descend keys q \<and> parse (indent + 1) q = Inr (val, p4)
        \<and> parseLoop indent obj p = Inr (obj', p')"
  then have body: "loopBody indent p = Descend keys q"
    and inner: "parseLoop (indent + 1) [] q = Inr (val, p4)"
    and res: "parseLoop indent obj p = Inr (obj', p')"
    by (simp_all add: parse_def)
  show "if indent \<noteq> 0 \<and> Type (token p4) \<noteq> TokenIndent
         then p' = p4 \<and> obj' = assignAll keys (Mapping val) obj
              \<and> (\<forall>k \<in> set keys. map_of obj' k = Some (Mapping val))
         else (\<exists>b. parse indent p4 = Inr (b, p')
                 \<and> map_of obj' = map_of (assignAll keys (Mapping val) obj) ++ map_of b
                 \<and> (\<forall>k \<in> set keys.
                       map_of obj' k
                         = (case map_of b k of Some w \<Rightarrow> Some w | None \<Rightarrow> Some (Mapping val))))"
  proof (cases "indent \<noteq> 0 \<and> Type (token p4) \<noteq> TokenIndent")
    case True
    with res body inner have "p' = p4" and "obj' = assignAll keys (Mapping val) obj"
      by (simp_all add: parseLoop_unfold[of indent obj p])
    with True show ?thesis
      by (simp add: map_of_assignAll_key)
  next
    case False
    then have c: "(indent \<noteq> 0 \<and> Type (token p4) \<noteq> TokenIndent) = False" by simp
    from res[unfolded parseLoop_unfold[of indent obj p]] body inner False
    have "parseLoop indent (assignAll keys (Mapping val) obj) p4 = Inr (obj', p')"
      by (auto split: if_splits)
    from parse_follows[OF this] obtain b where b: "parse indent p4 = Inr (b, p')"
      and m: "map_of obj' = map_of (assignAll keys (Mapping val) obj) ++ map_of b"
      by blast
    have "\<forall>k \<in> set keys.
        map_of obj' k = (case map_of b k of Some w \<Rightarrow> Some w | None \<Rightarrow> Some (Mapping val))"
      using m map_of_assignAll_key[of _ keys "Mapping val" obj]
      by (simp add: map_add_def split: option.splits)
    with b m c show ?thesis
      by (simp only: if_False) blast
  qed
next
  show "ParseLockFileData ''x:\<newline>  version 1\<newline>  version 2\<newline>''
        = (Some [(''x'', zeroEntry\<lparr>Version := ''2''\<rparr>)], None)"
    by code_simp
next
  show "ParseLockFileData ''x:\<newline>  version 1\<newline>x:\<newline>  resolved 2\<newline>''
        = (Some [(''x'', zeroEntry\<lparr>Resolved := ''2''\<rparr>)], None)"
    by code_simp
next
  show "ParseLockFileData
        ''a:\<newline>  dependencies:\<newline>    a 1\<newline>  dependencies:\<newline>    b 2\<newline>''
        = (Some [(''a'', zeroEntry\<lparr>Dependencies := [(''b'', ''2'')]\<rparr>)], None)"
    by code_simp
next
  show "ParseLockFileData
        ''a:\<newline>  dependencies:\<newline>    a 1\<newline>  dependencies:\<newline>    b 2\<newline>  version 3\<newline>''
        = (Some [(''a'', zeroEntry\<lparr>Version := ''3'', Dependencies := [(''b'', ''2'')]\<rparr>)], None)"
    by code_simp
next
  show "ParseLockFileData ''a:\<newline>  version:\<newline>    b 2\<newline>  version 3\<newline>''
        = (Some [(''a'', zeroEntry\<lparr>Version := ''3''\<rparr>)], None)"
    by code_simp
qed

theorem last_write_wins_witness:
  "distinct (map fst (fst (projr (parseLoop 0 [] (primed ''a 1 a 2'')))))
   \<and> (\<exists>b. parse 0 (projr (nextToken (projr (nextToken (primed ''a 1 a 2'')))))
             = Inr (b, snd (projr (parseLoop 0 [] (primed ''a 1 a 2''))))
          \<and> map_of (fst (projr (parseLoop 0 [] (primed ''a 1 a 2''))))
             = map_of (assignAll [Value (tokensOf ''a 1 a 2'' ! 0)]
                        (Scalar (Value (tokensOf ''a 1 a 2'' ! 1))) []) ++ map_of b)
   \<and> map_of (fst (projr (parseLoop 0 [] (primed ''a 1 a 2'')))) (Value (tokensOf ''a 1 a 2'' ! 0))
       = Some (Scalar (Value (tokensOf ''a 1 a 2'' ! 3)))
   \<and> fst (projr (parseLoop 1
                    [(Value (tokensOf ''d:\<newline>    b 2\<newline>'' ! 0), Scalar zeroValue)]
                    (primed ''d:\<newline>    b 2\<newline>'')))
       = assignAll [Value (tokensOf ''d:\<newline>    b 2\<newline>'' ! 0)]
           (Mapping (fst (projr (parse 2
              (projr (nextToken (projr (nextToken (primed ''d:\<newline>    b 2\<newline>'')))))))))
           [(Value (tokensOf ''d:\<newline>    b 2\<newline>'' ! 0), Scalar zeroValue)]
   \<and> map_of (fst (projr (parseLoop 1
                    [(Value (tokensOf ''d:\<newline>    b 2\<newline>'' ! 0), Scalar zeroValue)]
                    (primed ''d:\<newline>    b 2\<newline>''))))
         (Value (tokensOf ''d:\<newline>    b 2\<newline>'' ! 0))
       = Some (Mapping [(Value (tokensOf ''d:\<newline>    b 2\<newline>'' ! 4),
                         Scalar (Value (tokensOf ''d:\<newline>    b 2\<newline>'' ! 5)))])"
proof -
  let ?P = "primed ''a 1 a 2''"
  let ?R = "projr (parseLoop 0 [] ?P)"
  let ?Q = "projr (nextToken (projr (nextToken ?P)))"
  let ?k = "Value (tokensOf ''a 1 a 2'' ! 0)"
  let ?v = "Value (tokensOf ''a 1 a 2'' ! 1)"
  have res: "parseLoop 0 [] ?P = Inr (fst ?R, snd ?R)" by code_simp
  have body: "loopBody 0 ?P = Put [?k] ?v ?Q" by code_simp
  have last: "map_of (fst ?R) ?k = Some (Scalar (Value (tokensOf ''a 1 a 2'' ! 3)))" by code_simp
  from last_write_wins[where indent = 0 and obj = "[]" and p = "?P" and obj' = "fst ?R"
      and p' = "snd ?R" and keys = "[?k]" and v = "?v" and q = "?Q"] res body
  have A: "distinct (map fst (fst ?R))"
    and B: "\<exists>b. parse 0 ?Q = Inr (b, snd ?R)
          \<and> map_of (fst ?R) = map_of (assignAll [?k] (Scalar ?v) []) ++ map_of b
          \<and> (\<forall>k \<in> set [?k].
                map_of (fst ?R) k = (case map_of b k of Some w \<Rightarrow> Some w | None \<Rightarrow> Some (Scalar ?v)))"
    by simp_all
  let ?D = "primed ''d:\<newline>    b 2\<newline>''"
  let ?d = "Value (tokensOf ''d:\<newline>    b 2\<newline>'' ! 0)"
  let ?O = "[(?d, Scalar zeroValue)]"
  let ?DQ = "projr (nextToken (projr (nextToken ?D)))"
  let ?I = "projr (parse 2 ?DQ)"
  let ?S = "projr (parseLoop 1 ?O ?D)"
  have d1: "loopBody 1 ?D = Descend [?d] ?DQ" by code_simp
  have d2: "parse (1 + 1) ?DQ = Inr (fst ?I, snd ?I)" by code_simp
  have d3: "parseLoop 1 ?O ?D = Inr (fst ?S, snd ?S)" by code_simp
  have d4: "(1::int) \<noteq> 0 \<and> Type (token (snd ?I)) \<noteq> TokenIndent" by code_simp
  have d5: "fst ?I = [(Value (tokensOf ''d:\<newline>    b 2\<newline>'' ! 4),
                         Scalar (Value (tokensOf ''d:\<newline>    b 2\<newline>'' ! 5)))]" by code_simp
  from last_write_wins[where indent = 1 and obj = "?O" and p = "?D" and obj' = "fst ?S"
      and p' = "snd ?S" and keys = "[?d]" and q = "?DQ" and val = "fst ?I" and ?p4.0 = "snd ?I"]
    d1 d2 d3
  have "if (1::int) \<noteq> 0 \<and> Type (token (snd ?I)) \<noteq> TokenIndent
         then snd ?S = snd ?I \<and> fst ?S = assignAll [?d] (Mapping (fst ?I)) ?O
              \<and> (\<forall>k \<in> set [?d]. map_of (fst ?S) k = Some (Mapping (fst ?I)))
         else (\<exists>b. parse 1 (snd ?I) = Inr (b, snd ?S)
                 \<and> map_of (fst ?S) = map_of (assignAll [?d] (Mapping (fst ?I)) ?O) ++ map_of b
                 \<and> (\<forall>k \<in> set [?d].
                       map_of (fst ?S) k
                         = (case map_of b k of Some w \<Rightarrow> Some w | None \<Rightarrow> Some (Mapping (fst ?I)))))"
    by blast
  note E = this[unfolded if_P[OF d4]]
  from E have C: "fst ?S = assignAll [?d] (Mapping (fst ?I)) ?O"
    by blast
  from E have D: "map_of (fst ?S) ?d = Some (Mapping (fst ?I))"
    by (blast intro: list.set_intros)
  from A B last C D[unfolded d5] show ?thesis by blast
qed

section \<open>Properties of the entry point\<close>

lemma json_Unmarshal_no_error:
  "json_Unmarshal j = (lf, None) \<Longrightarrow> j = JObject kvs \<Longrightarrow> lf \<noteq> None"
  by (auto simp: json_Unmarshal_def split: if_splits prod.splits)

lemma body_cases:
  "(\<exists>lf. ParseLockFileData_body data = Returns (Some lf) None)
   \<or> (\<exists>e. ParseLockFileData_body data = Returns None (Some e))
   \<or> (\<exists>v. ParseLockFileData_body data = Panics v None None)"
proof -
  have m: "\<exists>kvs. json_Marshal (Mapping obj) = JObject kvs" for obj
    by simp
  show ?thesis
    unfolding ParseLockFileData_body_def
    using m
    by (auto split: sum.splits prod.splits option.splits dest: json_Unmarshal_no_error)
qed

text \<open>
  Claim C3. For every input, \<^verbatim>\<open>ParseLockFileData\<close> returns a document and no error, or an error
  and no document. Every panic of its body, from the tokenizer or from the parser, reaches
  the deferred function, which makes it the error that is returned; at that moment no
  document has been assigned. (The functions of the model are total: \<open>tokenize\<close> and \<open>parse\<close>
  end on every input, so the two cases are all there is.)
\<close>

theorem ParseLockFileData_document_or_error:
  "((\<exists>lf. ParseLockFileData data = (Some lf, None)) \<or> (\<exists>e. ParseLockFileData data = (None, Some e)))
   \<and> (\<forall>v lf err. ParseLockFileData_body data = Panics v lf err \<longrightarrow>
         lf = None \<and> ParseLockFileData data = (None, Some (recovered v)))"
  using body_cases[of data] unfolding ParseLockFileData_def by auto

theorem ParseLockFileData_document_or_error_witness:
  "ParseLockFileData [CHR 0x0D] = (None, Some (recovered (PanicRuntime IndexOutOfRange)))"
proof -
  have "ParseLockFileData_body [CHR 0x0D] = Panics (PanicRuntime IndexOutOfRange) None None"
    by code_simp
  with ParseLockFileData_document_or_error[of "[CHR 0x0D]"] show ?thesis by blast
qed

subsection \<open>The version of the lockfile\<close>

lemma Atoi_gate: "(Atoi ds > LockfileVersion) = (decimal ds > 1)"
  unfolding Atoi_def LockfileVersion_def by (auto simp: min_def)

lemma versionRegex_match:
  assumes "ds \<noteq> []" and "list_all is_digit ds"
  shows "versionRegex_FindStringSubmatch (''yarn lockfile v'' @ ds) = Some ds"
  using assms by (simp add: versionRegex_FindStringSubmatch_def HasPrefix_def)

lemma onComment_version:
  assumes "isString tk" and "TrimSpace (vString (Value tk)) = ''yarn lockfile v'' @ ds"
    and "ds \<noteq> []" and "list_all is_digit ds"
  shows "onComment p tk =
      (if decimal ds > 1 then Inl (PanicString (versionMessage (Atoi ds) 1))
       else Inr (p\<lparr>comments := comments p @ [''yarn lockfile v'' @ ds]\<rparr>))"
  using assms versionRegex_match[OF assms(3,4)]
  by (simp add: onComment_def Let_def Atoi_gate) (simp add: LockfileVersion_def)

lemma nextToken_version:
  assumes "tokenPtr p < length (ptokens p)" and "Type (ptokens p ! tokenPtr p) = TokenComment"
    and "isString (ptokens p ! tokenPtr p)"
    and "TrimSpace (vString (Value (ptokens p ! tokenPtr p))) = ''yarn lockfile v'' @ ds"
    and "ds \<noteq> []" and "list_all is_digit ds" and "decimal ds > 1"
  shows "nextToken p = Inl (PanicString (versionMessage (Atoi ds) 1))"
  using assms onComment_version[OF assms(3,4,5,6), of "p\<lparr>tokenPtr := tokenPtr p + 1\<rparr>"]
  by (subst nextToken.simps) (simp add: Let_def)

text \<open>
  Claim C4, as the code has it. The version is checked where the cursor of the parser comes
  to a comment. When it comes to a comment whose trimmed text is \<^verbatim>\<open>yarn lockfile v\<close> and the
  digits of \<open>N\<close>, the parser panics with the message for \<open>N\<close> exactly when \<open>N\<close> is greater than 1,
  and goes on with the comment recorded otherwise; a first token of that kind with \<open>N\<close> greater
  than 1 makes \<^verbatim>\<open>ParseLockFileData\<close> return that message as its error. The input
  \<^verbatim>\<open># yarn lockfile v99\<close> with its line feed fails so, the input \<^verbatim>\<open># yarn lockfile v1\<close> gives the
  empty document.
\<close>

theorem version_gate:
  "(isString tk \<and> TrimSpace (vString (Value tk)) = ''yarn lockfile v'' @ ds \<and> ds \<noteq> []
      \<and> list_all is_digit ds \<longrightarrow>
      (onComment p tk = Inl (PanicString (versionMessage (Atoi ds) 1))) = (decimal ds > 1)
      \<and> (onComment p tk = Inr (p\<lparr>comments := comments p @ [''yarn lockfile v'' @ ds]\<rparr>))
          = (decimal ds \<le> 1))
   \<and> (tokenPtr p < length (ptokens p) \<and> Type (ptokens p ! tokenPtr p) = TokenComment
        \<and> isString (ptokens p ! tokenPtr p)
        \<and> TrimSpace (vString (Value (ptokens p ! tokenPtr p))) = ''yarn lockfile v'' @ ds \<and> ds \<noteq> []
        \<and> list_all is_digit ds \<and> decimal ds > 1 \<longrightarrow>
        nextToken p = Inl (PanicString (versionMessage (Atoi ds) 1)))
   \<and> (tokenize newTokenizer data = Inr (t, None) \<and> tokens t \<noteq> []
        \<and> Type (tokens t ! 0) = TokenComment \<and> isString (tokens t ! 0)
        \<and> TrimSpace (vString (Value (tokens t ! 0))) = ''yarn lockfile v'' @ ds \<and> ds \<noteq> []
        \<and> list_all is_digit ds \<and> decimal ds > 1 \<longrightarrow>
        ParseLockFileData data = (None, Some (ParseErr (versionMessage (Atoi ds) 1))))
   \<and> ParseLockFileData ''# yarn lockfile v99\<newline>'' = (None, Some (ParseErr (versionMessage 99 1)))
   \<and> ParseLockFileData ''# yarn lockfile v1\<newline>'' = (Some [], None)"
proof (intro conjI impI)
  assume a: "isString tk \<and> TrimSpace (vString (Value tk)) = ''yarn lockfile v'' @ ds \<and> ds \<noteq> []
      \<and> list_all is_digit ds"
  then have oc: "onComment p tk =
      (if decimal ds > 1 then Inl (PanicString (versionMessage (Atoi ds) 1))
       else Inr (p\<lparr>comments := comments p @ [''yarn lockfile v'' @ ds]\<rparr>))"
    by (simp add: onComment_version)
  show "(onComment p tk = Inl (PanicString (versionMessage (Atoi ds) 1))) = (decimal ds > 1)"
    unfolding oc by simp
  show "(onComment p tk = Inr (p\<lparr>comments := comments p @ [''yarn lockfile v'' @ ds]\<rparr>))
          = (decimal ds \<le> 1)"
    unfolding oc by auto
next
  assume "tokenPtr p < length (ptokens p) \<and> Type (ptokens p ! tokenPtr p) = TokenComment
        \<and> isString (ptokens p ! tokenPtr p)
        \<and> TrimSpace (vString (Value (ptokens p ! tokenPtr p))) = ''yarn lockfile v'' @ ds \<and> ds \<noteq> []
        \<and> list_all is_digit ds \<and> decimal ds > 1"
  then show "nextToken p = Inl (PanicString (versionMessage (Atoi ds) 1))"
    by (simp add: nextToken_version)
next
  assume a: "tokenize newTokenizer data = Inr (t, None) \<and> tokens t \<noteq> []
        \<and> Type (tokens t ! 0) = TokenComment \<and> isString (tokens t ! 0)
        \<and> TrimSpace (vString (Value (tokens t ! 0))) = ''yarn lockfile v'' @ ds \<and> ds \<noteq> []
        \<and> list_all is_digit ds \<and> decimal ds > 1"
  then have "nextToken (newParser (tokens t)) = Inl (PanicString (versionMessage (Atoi ds) 1))"
    by (intro nextToken_version) (simp_all add: newParser_def)
  with a show "ParseLockFileData data = (None, Some (ParseErr (versionMessage (Atoi ds) 1)))"
    by (simp add: ParseLockFileData_def ParseLockFileData_body_def recovered_def)
next
  show "ParseLockFileData ''# yarn lockfile v99\<newline>'' = (None, Some (ParseErr (versionMessage 99 1)))"
    by code_simp
next
  show "ParseLockFileData ''# yarn lockfile v1\<newline>'' = (Some [], None)"
    by code_simp
qed

theorem version_gate_witness:
  "ParseLockFileData ''# yarn lockfile v0099\<newline>''
     = (None, Some (ParseErr (versionMessage (Atoi ''0099'') 1)))
   \<and> onComment (newParser []) (tokensOf ''# yarn lockfile v01\<newline>'' ! 0)
     = Inr ((newParser [])\<lparr>comments := comments (newParser []) @ [''yarn lockfile v'' @ ''01'']\<rparr>)"
proof -
  let ?data = "''# yarn lockfile v0099\<newline>''"
  let ?t = "fst (projr (tokenize newTokenizer ?data))"
  have h: "tokenize newTokenizer ?data = Inr (?t, None) \<and> tokens ?t \<noteq> []
        \<and> Type (tokens ?t ! 0) = TokenComment \<and> isString (tokens ?t ! 0)
        \<and> TrimSpace (vString (Value (tokens ?t ! 0))) = ''yarn lockfile v'' @ ''0099'' \<and> ''0099'' \<noteq> []
        \<and> list_all is_digit ''0099'' \<and> decimal ''0099'' > 1"
    by code_simp
  from version_gate[where data = "?data" and t = "?t" and ds = "''0099''"] h
  have A: "ParseLockFileData ?data = (None, Some (ParseErr (versionMessage (Atoi ''0099'') 1)))"
    by blast
  let ?tk = "tokensOf ''# yarn lockfile v01\<newline>'' ! 0"
  have g: "isString ?tk \<and> TrimSpace (vString (Value ?tk)) = ''yarn lockfile v'' @ ''01'' \<and> ''01'' \<noteq> []
      \<and> list_all is_digit ''01''"
    by code_simp
  have g': "decimal ''01'' \<le> 1" by code_simp
  from version_gate[where tk = "?tk" and ds = "''01''" and p = "newParser []"] g g'
  have B: "onComment (newParser []) ?tk
     = Inr ((newParser [])\<lparr>comments := comments (newParser []) @ [''yarn lockfile v'' @ ''01'']\<rparr>)"
    by blast
  from A B show ?thesis by blast
qed

text \<open>
  The claim as it was stated, for every input that holds such a comment, does not hold: the
  comment below, for version 99, is a token of the input, but \<^verbatim>\<open>parse(0)\<close> ends at the
  \<open>Indent\<close> token before it and the cursor never comes to it. The input parses, to the empty
  document.
\<close>

theorem version_comment_never_reached:
  "(case tokenize newTokenizer ''\<newline>  # yarn lockfile v99\<newline>'' of
      Inr (t, None) \<Rightarrow>
        map (\<lambda>tk. (Type tk, TrimSpace (vString (Value tk)))) (tokens t)
          = [(TokenNewLine, []), (TokenIndent, []), (TokenComment, ''yarn lockfile v99''),
             (TokenNewLine, []), (TokenEOF, [])]
    | _ \<Rightarrow> False)
   \<and> ParseLockFileData ''\<newline>  # yarn lockfile v99\<newline>'' = (Some [], None)"
proof -
  have "(case tokenize newTokenizer ''\<newline>  # yarn lockfile v99\<newline>'' of
      Inr (t, None) \<Rightarrow>
        map (\<lambda>tk. (Type tk, TrimSpace (vString (Value tk)))) (tokens t)
          = [(TokenNewLine, []), (TokenIndent, []), (TokenComment, ''yarn lockfile v99''),
             (TokenNewLine, []), (TokenEOF, [])]
    | _ \<Rightarrow> False)"
    by code_simp
  moreover have "ParseLockFileData ''\<newline>  # yarn lockfile v99\<newline>'' = (Some [], None)"
    by code_simp
  ultimately show ?thesis by blast
qed

end
